theory Spec2Isabelle
  imports Main
begin

section \<open>Values and data of the Rally REST client (lib/restapi.js)\<close>

text \<open>
  The pagination metadata of a server response is untyped JSON: a field can be absent,
  null, a string or a number. The drivers test such a field with JavaScript's truthiness
  and \<^verbatim>\<open>typeof v === 'number'\<close>. Numbers are modelled as integers.
\<close>

datatype jsval = JUndefined | JNull | JBool bool | JNum int | JStr string

fun truthy :: "jsval \<Rightarrow> bool" where
  "truthy JUndefined = False"
| "truthy JNull = False"
| "truthy (JBool b) = b"
| "truthy (JNum n) = (n \<noteq> 0)"
| "truthy (JStr s) = (s \<noteq> [])"

fun is_number :: "jsval \<Rightarrow> bool" where
  "is_number (JNum n) = True"
| "is_number v = False"

text \<open>A rejected request carries the list of error strings (\<^verbatim>\<open>generateError\<close>).\<close>

datatype error = RequestError "string list"

text \<open>
  The page envelope the transport resolves with. \<^verbatim>\<open>Results\<close> may be missing
  (\<open>None\<close>). The bulk query returns the last envelope it received, with
  \<^verbatim>\<open>Results\<close>, \<^verbatim>\<open>StartIndex\<close> and \<^verbatim>\<open>PageSize\<close> overwritten.
\<close>

record 'a envelope =
  env_Results :: "'a list option"
  env_StartIndex :: jsval
  env_PageSize :: jsval
  env_TotalResultCount :: jsval
  env_Errors :: "string list"
  env_Warnings :: "string list"

text \<open>
  The caller's options as passed in (a field left out is \<open>None\<close>), and the options
  after \<^verbatim>\<open>_.merge({start: 1, pageSize: 200}, options)\<close>.
\<close>

record options =
  opt_start :: "int option"
  opt_pageSize :: "int option"
  opt_limit :: "int option"

record merged =
  m_start :: int
  m_pageSize :: int
  m_limit :: "int option"

definition merge_defaults :: "options \<Rightarrow> merged" where
  "merge_defaults options =
     \<lparr> m_start = (case opt_start options of None \<Rightarrow> 1 | Some s \<Rightarrow> s),
       m_pageSize = (case opt_pageSize options of None \<Rightarrow> 200 | Some p \<Rightarrow> p),
       m_limit = opt_limit options \<rparr>"

text \<open>
  The query string of one GET, as far as pagination goes: \<^verbatim>\<open>qs.start\<close> and
  \<^verbatim>\<open>qs.pagesize\<close>. The url and the order, query and fetch parameters are the same
  in every request of one invocation and are left out.
\<close>

record request =
  req_start :: int
  req_pagesize :: int

text \<open>
  The transport (\<^verbatim>\<open>self.request.get\<close>) is a parameter: a function of the state of
  the outside world and the request, giving a rejection or an envelope and the next state
  of the world.
\<close>

type_synonym ('w, 'a) fetcher = "'w \<Rightarrow> request \<Rightarrow> (error + 'a envelope) \<times> 'w"

record pageInfo =
  pi_startIndex :: jsval
  pi_pageSize :: int
  pi_totalResultCount :: jsval
  pi_totalProcessed :: int

text \<open>
  What an invocation does that can be observed from outside, in order: the requests it
  issues with their responses, and the calls of the page callback with its answer.
\<close>

datatype 'a event =
    Fetch request "error + 'a envelope"
  | PageCall "'a list" pageInfo bool

fun is_fetch :: "'a event \<Rightarrow> bool" where
  "is_fetch (Fetch req resp) = True"
| "is_fetch (PageCall recs info b) = False"

definition fetches :: "'a event list \<Rightarrow> 'a event list" where
  "fetches evs = filter is_fetch evs"

fun is_failure :: "'a event \<Rightarrow> bool" where
  "is_failure (Fetch req (Inl e)) = True"
| "is_failure ev = False"

fun is_refusal :: "'a event \<Rightarrow> bool" where
  "is_refusal (PageCall recs info answer) = (\<not> answer)"
| "is_refusal (Fetch req resp) = False"

fun delivered :: "'a event list \<Rightarrow> int" where
  "delivered [] = 0"
| "delivered (Fetch req resp # evs) = delivered evs"
| "delivered (PageCall recs info b # evs) = int (length recs) + delivered evs"

section \<open>The shared pagination test\<close>

definition optimalPageSize :: "merged \<Rightarrow> int" where
  "optimalPageSize opts =
     (case m_limit opts of
        None \<Rightarrow> m_pageSize opts
      | Some l \<Rightarrow> if l > 0 then min (m_pageSize opts) l else m_pageSize opts)"

definition isValidPagination :: "merged \<Rightarrow> 'a envelope \<Rightarrow> bool" where
  "isValidPagination opts result =
     (truthy (env_StartIndex result) \<and> is_number (env_StartIndex result) \<and>
      m_pageSize opts \<noteq> 0 \<and> m_pageSize opts > 0 \<and>
      truthy (env_TotalResultCount result) \<and> is_number (env_TotalResultCount result))"

text \<open>
  \<^verbatim>\<open>result.StartIndex + options.pageSize\<close> and the comparison with
  \<^verbatim>\<open>result.TotalResultCount\<close>. Both are read only under \<open>isValidPagination\<close>, where
  the two fields are numbers; on other values the sum is given as undefined and the
  comparison as false.
\<close>

fun js_plus :: "jsval \<Rightarrow> int \<Rightarrow> jsval" where
  "js_plus (JNum s) p = JNum (s + p)"
| "js_plus v p = JUndefined"

fun js_le :: "jsval \<Rightarrow> jsval \<Rightarrow> bool" where
  "js_le (JNum a) (JNum b) = (a \<le> b)"
| "js_le u v = False"

fun js_int :: "jsval \<Rightarrow> int" where
  "js_int (JNum n) = n"
| "js_int v = 0"

definition hasMoreData :: "merged \<Rightarrow> 'a envelope \<Rightarrow> bool" where
  "hasMoreData opts result =
     js_le (js_plus (env_StartIndex result) (m_pageSize opts)) (env_TotalResultCount result)"

definition withinLimit :: "merged \<Rightarrow> int \<Rightarrow> bool" where
  "withinLimit opts count = (case m_limit opts of None \<Rightarrow> True | Some l \<Rightarrow> count < l)"

definition nextPageOptions :: "merged \<Rightarrow> int \<Rightarrow> 'a envelope \<Rightarrow> request" where
  "nextPageOptions opts pagesize result =
     \<lparr> req_start = js_int (js_plus (env_StartIndex result) (m_pageSize opts)),
       req_pagesize = pagesize \<rparr>"

text \<open>
  The records of an envelope (none when \<^verbatim>\<open>Results\<close> is missing), and the first
  request of \<open>query\<close> and \<open>queryStream\<close>.
\<close>

definition pageRecords :: "'a envelope \<Rightarrow> 'a list" where
  "pageRecords result = (case env_Results result of None \<Rightarrow> [] | Some pageResults \<Rightarrow> pageResults)"

definition firstRequest :: "options \<Rightarrow> request" where
  "firstRequest options =
     \<lparr> req_start = m_start (merge_defaults options),
       req_pagesize = optimalPageSize (merge_defaults options) \<rparr>"

section \<open>query: bulk accumulation\<close>

record ('w, 'a) qstate =
  q_world :: 'w
  q_results :: "'a list"
  q_totalFetched :: int
  q_events :: "'a event list"

datatype ('r, 's) step = Return 'r 's | Continue 's

definition finalResult :: "merged \<Rightarrow> 'a envelope \<Rightarrow> ('w, 'a) qstate \<Rightarrow> 'a envelope" where
  "finalResult opts result st =
     result\<lparr> env_Results := Some (q_results st),
             env_StartIndex := JNum (m_start opts),
             env_PageSize := JNum (int (length (q_results st))) \<rparr>"

text \<open>
  The first half of \<^verbatim>\<open>loadRemainingPages\<close>: the page is appended to the
  accumulator, trimmed to the limit. \<open>Return\<close> is one of the two early exits, with
  the value returned.
\<close>

definition appendPage ::
  "merged \<Rightarrow> 'a envelope \<Rightarrow> ('w, 'a) qstate \<Rightarrow> ('a envelope, ('w, 'a) qstate) step" where
  "appendPage opts result st =
     (case env_Results result of
        None \<Rightarrow> Continue st
      | Some pageResults \<Rightarrow>
          if length pageResults > 0 then
            (let pushAll = st\<lparr> q_results := q_results st @ pageResults,
                               q_totalFetched := q_totalFetched st + int (length pageResults) \<rparr>
             in case m_limit opts of
                  None \<Rightarrow> Continue pushAll
                | Some l \<Rightarrow>
                    (let remainingNeeded = l - q_totalFetched st
                     in if remainingNeeded \<le> 0 then Return (finalResult opts result st) st
                        else if int (length pageResults) > remainingNeeded then
                          (let trimmed =
                                 st\<lparr> q_results := q_results st @ take (nat remainingNeeded) pageResults,
                                     q_totalFetched := q_totalFetched st + remainingNeeded \<rparr>
                           in Return (finalResult opts result trimmed) trimmed)
                        else Continue pushAll))
          else Continue st)"

text \<open>
  \<^verbatim>\<open>loadRemainingPages\<close>. The server decides how long the chain of requests is, so
  the recursion is bounded by fuel, one unit per page handled; the outcome \<open>None\<close> is
  a chain that has not ended within the fuel.
\<close>

fun loadRemainingPages ::
  "nat \<Rightarrow> ('w, 'a) fetcher \<Rightarrow> merged \<Rightarrow> int \<Rightarrow> 'a envelope \<Rightarrow> ('w, 'a) qstate \<Rightarrow>
     (error + 'a envelope) option \<times> ('w, 'a) qstate" where
  "loadRemainingPages 0 fetch opts pagesize result st = (None, st)"
| "loadRemainingPages (Suc fuel) fetch opts pagesize result st =
     (case appendPage opts result st of
        Return r st1 \<Rightarrow> (Some (Inr r), st1)
      | Continue st1 \<Rightarrow>
          if isValidPagination opts result \<and> hasMoreData opts result \<and>
             withinLimit opts (q_totalFetched st1)
          then
            (let req = nextPageOptions opts pagesize result;
                 (resp, w) = fetch (q_world st1) req;
                 st2 = st1\<lparr> q_world := w, q_events := q_events st1 @ [Fetch req resp] \<rparr>
             in case resp of
                  Inl e \<Rightarrow> (Some (Inl e), st2)
                | Inr nextResult \<Rightarrow> loadRemainingPages fuel fetch opts pagesize nextResult st2)
          else (Some (Inr (finalResult opts result st1)), st1))"

definition query ::
  "nat \<Rightarrow> ('w, 'a) fetcher \<Rightarrow> options \<Rightarrow> 'w \<Rightarrow> (error + 'a envelope) option \<times> ('w, 'a) qstate" where
  "query fuel fetch options w =
     (let opts = merge_defaults options;
          req = \<lparr> req_start = m_start opts, req_pagesize = optimalPageSize opts \<rparr>;
          (resp, w1) = fetch w req;
          st = \<lparr> q_world = w1, q_results = [], q_totalFetched = 0, q_events = [Fetch req resp] \<rparr>
      in case resp of
           Inl e \<Rightarrow> (Some (Inl e), st)
         | Inr result \<Rightarrow> loadRemainingPages fuel fetch opts (optimalPageSize opts) result st)"

section \<open>queryStream: one callback per page\<close>

record streamResult =
  sr_totalProcessed :: int
  sr_completed :: bool

text \<open>
  The page callback is the caller's function. What it remembers between calls is its
  state \<open>'c\<close>, passed in and returned; its answer is whether to continue.
\<close>

type_synonym ('c, 'a) pageCallback = "'c \<Rightarrow> 'a list \<Rightarrow> pageInfo \<Rightarrow> bool \<times> 'c"

record ('w, 'c, 'a) sstate =
  s_world :: 'w
  s_callback :: 'c
  s_totalProcessed :: int
  s_events :: "'a event list"

text \<open>\<^verbatim>\<open>limitedPageResults\<close>; \<open>None\<close> is the exit taken when nothing more is needed.\<close>

definition limitedPageResults :: "merged \<Rightarrow> int \<Rightarrow> 'a list \<Rightarrow> 'a list option" where
  "limitedPageResults opts totalProcessed pageResults =
     (case m_limit opts of
        None \<Rightarrow> Some pageResults
      | Some l \<Rightarrow>
          (let remainingNeeded = l - totalProcessed
           in if remainingNeeded \<le> 0 then None
              else if int (length pageResults) > remainingNeeded
                   then Some (take (nat remainingNeeded) pageResults)
                   else Some pageResults))"

definition limitReached :: "merged \<Rightarrow> int \<Rightarrow> bool" where
  "limitReached opts totalProcessed =
     (case m_limit opts of None \<Rightarrow> False | Some l \<Rightarrow> totalProcessed \<ge> l)"

text \<open>The first half of \<^verbatim>\<open>processPages\<close>: the page is handed to the callback.\<close>

definition deliverPage ::
  "merged \<Rightarrow> ('c, 'a) pageCallback \<Rightarrow> 'a envelope \<Rightarrow> ('w, 'c, 'a) sstate \<Rightarrow>
     (streamResult, ('w, 'c, 'a) sstate) step" where
  "deliverPage opts onPageCallback result st =
     (case env_Results result of
        None \<Rightarrow> Continue st
      | Some pageResults \<Rightarrow>
          if length pageResults > 0 then
            (case limitedPageResults opts (s_totalProcessed st) pageResults of
               None \<Rightarrow>
                 Return \<lparr> sr_totalProcessed = s_totalProcessed st, sr_completed = True \<rparr> st
             | Some limited \<Rightarrow>
                 (let pageInfo =
                        \<lparr> pi_startIndex = env_StartIndex result,
                          pi_pageSize = int (length limited),
                          pi_totalResultCount = env_TotalResultCount result,
                          pi_totalProcessed = s_totalProcessed st + int (length limited) \<rparr>;
                      (continueProcessing, c) = onPageCallback (s_callback st) limited pageInfo;
                      st1 = st\<lparr> s_callback := c,
                                 s_totalProcessed := s_totalProcessed st + int (length limited),
                                 s_events := s_events st @ [PageCall limited pageInfo continueProcessing] \<rparr>
                  in if \<not> continueProcessing then
                       Return \<lparr> sr_totalProcessed = s_totalProcessed st1, sr_completed = False \<rparr> st1
                     else if limitReached opts (s_totalProcessed st1) then
                       Return \<lparr> sr_totalProcessed = s_totalProcessed st1, sr_completed = True \<rparr> st1
                     else Continue st1))
          else Continue st)"

fun processPages ::
  "nat \<Rightarrow> ('w, 'a) fetcher \<Rightarrow> ('c, 'a) pageCallback \<Rightarrow> merged \<Rightarrow> int \<Rightarrow> 'a envelope \<Rightarrow>
     ('w, 'c, 'a) sstate \<Rightarrow> (error + streamResult) option \<times> ('w, 'c, 'a) sstate" where
  "processPages 0 fetch onPageCallback opts pagesize result st = (None, st)"
| "processPages (Suc fuel) fetch onPageCallback opts pagesize result st =
     (case deliverPage opts onPageCallback result st of
        Return r st1 \<Rightarrow> (Some (Inr r), st1)
      | Continue st1 \<Rightarrow>
          if isValidPagination opts result \<and> hasMoreData opts result \<and>
             withinLimit opts (s_totalProcessed st1)
          then
            (let req = nextPageOptions opts pagesize result;
                 (resp, w) = fetch (s_world st1) req;
                 st2 = st1\<lparr> s_world := w, s_events := s_events st1 @ [Fetch req resp] \<rparr>
             in case resp of
                  Inl e \<Rightarrow> (Some (Inl e), st2)
                | Inr nextResult \<Rightarrow>
                    processPages fuel fetch onPageCallback opts pagesize nextResult st2)
          else
            (Some (Inr \<lparr> sr_totalProcessed = s_totalProcessed st1, sr_completed = True \<rparr>), st1))"

definition queryStream ::
  "nat \<Rightarrow> ('w, 'a) fetcher \<Rightarrow> options \<Rightarrow> ('c, 'a) pageCallback \<Rightarrow> 'w \<Rightarrow> 'c \<Rightarrow>
     (error + streamResult) option \<times> ('w, 'c, 'a) sstate" where
  "queryStream fuel fetch options onPageCallback w c =
     (let opts = merge_defaults options;
          req = \<lparr> req_start = m_start opts, req_pagesize = optimalPageSize opts \<rparr>;
          (resp, w1) = fetch w req;
          st = \<lparr> s_world = w1, s_callback = c, s_totalProcessed = 0,
                 s_events = [Fetch req resp] \<rparr>
      in case resp of
           Inl e \<Rightarrow> (Some (Inl e), st)
         | Inr result \<Rightarrow>
             processPages fuel fetch onPageCallback opts (optimalPageSize opts) result st)"

section \<open>queryBatch: fixed-size batches over the page stream\<close>

record batchInfo =
  bi_batchNumber :: int
  bi_batchSize :: int
  bi_totalProcessed :: int
  bi_totalResultCount :: jsval

record batchResult =
  br_totalProcessed :: int
  br_totalBatches :: int
  br_completed :: bool

type_synonym ('u, 'a) batchCallback = "'u \<Rightarrow> 'a list \<Rightarrow> batchInfo \<Rightarrow> bool \<times> 'u"

text \<open>
  The variables the two closures of \<^verbatim>\<open>queryBatch\<close> share, the state of the caller's
  batch callback, and the calls made to it so far (batch, info, answer) in order.
\<close>

record ('u, 'a) bstate =
  b_user :: 'u
  b_batches :: "'a list list"
  b_currentBatch :: "'a list"
  b_totalProcessed :: int
  b_calls :: "('a list \<times> batchInfo \<times> bool) list"

text \<open>\<^verbatim>\<open>const batches = []; let currentBatch = []; let totalProcessed = 0;\<close>\<close>

definition initialBatchState :: "'u \<Rightarrow> ('u, 'a) bstate" where
  "initialBatchState u =
     \<lparr> b_user = u, b_batches = [], b_currentBatch = [], b_totalProcessed = 0, b_calls = [] \<rparr>"

text \<open>
  One step of the \<^verbatim>\<open>for (const result of pageResults)\<close> loop of the page callback
  that \<^verbatim>\<open>queryBatch\<close> hands to \<^verbatim>\<open>queryStream\<close>, and the loop.
\<close>

definition flushBatch ::
  "('u, 'a) batchCallback \<Rightarrow> jsval \<Rightarrow> ('u, 'a) bstate \<Rightarrow> bool \<times> ('u, 'a) bstate" where
  "flushBatch onBatchCallback totalResultCount st =
     (let batchInfo =
            \<lparr> bi_batchNumber = int (length (b_batches st)) + 1,
              bi_batchSize = int (length (b_currentBatch st)),
              bi_totalProcessed = b_totalProcessed st + int (length (b_currentBatch st)),
              bi_totalResultCount = totalResultCount \<rparr>;
          (continueProcessing, u) = onBatchCallback (b_user st) (b_currentBatch st) batchInfo
      in (continueProcessing,
          st\<lparr> b_user := u,
              b_batches := b_batches st @ [b_currentBatch st],
              b_totalProcessed := b_totalProcessed st + int (length (b_currentBatch st)),
              b_currentBatch := [],
              b_calls := b_calls st @ [(b_currentBatch st, batchInfo, continueProcessing)] \<rparr>))"

fun onPageBatch ::
  "int \<Rightarrow> ('u, 'a) batchCallback \<Rightarrow> ('u, 'a) bstate \<Rightarrow> 'a list \<Rightarrow> pageInfo \<Rightarrow>
     bool \<times> ('u, 'a) bstate" where
  "onPageBatch batchSize onBatchCallback st [] pageInfo = (True, st)"
| "onPageBatch batchSize onBatchCallback st (result # pageResults) pageInfo =
     (let st1 = st\<lparr> b_currentBatch := b_currentBatch st @ [result] \<rparr>
      in if int (length (b_currentBatch st1)) \<ge> batchSize then
           (let (continueProcessing, st2) =
                  flushBatch onBatchCallback (pi_totalResultCount pageInfo) st1
            in if \<not> continueProcessing then (False, st2)
               else onPageBatch batchSize onBatchCallback st2 pageResults pageInfo)
         else onPageBatch batchSize onBatchCallback st1 pageResults pageInfo)"

text \<open>The \<^verbatim>\<open>.then\<close> handler: the remainder is flushed and the totals are reported.\<close>

definition finalFlush ::
  "('u, 'a) batchCallback \<Rightarrow> streamResult \<Rightarrow> ('u, 'a) bstate \<Rightarrow> batchResult \<times> ('u, 'a) bstate" where
  "finalFlush onBatchCallback streamResult st =
     (let st1 = (if length (b_currentBatch st) > 0 then
                   (let batchInfo =
                          \<lparr> bi_batchNumber = int (length (b_batches st)) + 1,
                            bi_batchSize = int (length (b_currentBatch st)),
                            bi_totalProcessed = b_totalProcessed st + int (length (b_currentBatch st)),
                            bi_totalResultCount = JNum (sr_totalProcessed streamResult) \<rparr>;
                        (answer, u) = onBatchCallback (b_user st) (b_currentBatch st) batchInfo
                    in st\<lparr> b_user := u,
                           b_batches := b_batches st @ [b_currentBatch st],
                           b_totalProcessed := b_totalProcessed st + int (length (b_currentBatch st)),
                           b_calls := b_calls st @ [(b_currentBatch st, batchInfo, answer)] \<rparr>)
                 else st)
      in (\<lparr> br_totalProcessed = b_totalProcessed st1,
            br_totalBatches = int (length (b_batches st1)),
            br_completed = sr_completed streamResult \<rparr>, st1))"

text \<open>
  \<^verbatim>\<open>batchSize\<close> is \<open>None\<close> when the callback is passed in its place; the size is
  then \<^verbatim>\<open>options.pageSize || 200\<close>.
\<close>

definition defaultBatchSize :: "options \<Rightarrow> int option \<Rightarrow> int" where
  "defaultBatchSize options batchSize =
     (case batchSize of
        Some b \<Rightarrow> b
      | None \<Rightarrow> (case opt_pageSize options of
                   None \<Rightarrow> 200
                 | Some p \<Rightarrow> if p \<noteq> 0 then p else 200))"

definition queryBatch ::
  "nat \<Rightarrow> ('w, 'a) fetcher \<Rightarrow> options \<Rightarrow> int option \<Rightarrow> ('u, 'a) batchCallback \<Rightarrow> 'w \<Rightarrow> 'u \<Rightarrow>
     (error + batchResult) option \<times> ('w, ('u, 'a) bstate, 'a) sstate" where
  "queryBatch fuel fetch options batchSize onBatchCallback w u =
     (let bsz = defaultBatchSize options batchSize;
          (out, st) = queryStream fuel fetch options (onPageBatch bsz onBatchCallback) w
                        (initialBatchState u)
      in case out of
           None \<Rightarrow> (None, st)
         | Some (Inl e) \<Rightarrow> (Some (Inl e), st)
         | Some (Inr streamResult) \<Rightarrow>
             (let (r, b) = finalFlush onBatchCallback streamResult (s_callback st)
              in (Some (Inr r), st\<lparr> s_callback := b \<rparr>)))"

text \<open>The \<open>batchInfo\<close> that the final flush builds.\<close>

definition finalBatchInfo :: "streamResult \<Rightarrow> ('u, 'a) bstate \<Rightarrow> batchInfo" where
  "finalBatchInfo sr b =
     \<lparr> bi_batchNumber = int (length (b_batches b)) + 1,
       bi_batchSize = int (length (b_currentBatch b)),
       bi_totalProcessed = b_totalProcessed b + int (length (b_currentBatch b)),
       bi_totalResultCount = JNum (sr_totalProcessed sr) \<rparr>"

text \<open>The number of records handed to the batch callback in a list of calls.\<close>

fun batched :: "('a list \<times> 'i \<times> bool) list \<Rightarrow> int" where
  "batched [] = 0"
| "batched ((batch, info, answer) # calls) = int (length batch) + batched calls"

text \<open>
  What ties the batches to the stream: the count of \<^verbatim>\<open>queryBatch\<close> is the number
  of records handed out, and with the pending batch it stays within \<open>n\<close>.
\<close>

definition batchBound :: "('u, 'a) bstate \<Rightarrow> int \<Rightarrow> bool" where
  "batchBound b n =
     (b_totalProcessed b = batched (b_calls b) \<and>
      b_totalProcessed b + int (length (b_currentBatch b)) \<le> n)"

text \<open>
  The calls of the batch callback so far are full batches numbered from 1, and the pending
  batch is not yet full.
\<close>

definition wellNumbered :: "int \<Rightarrow> ('a list \<times> batchInfo \<times> bool) list \<Rightarrow> bool" where
  "wellNumbered bsz calls =
     (\<forall>k < length calls.
        case calls ! k of (batch, info, answer) \<Rightarrow>
          int (length batch) = bsz \<and> bi_batchNumber info = int k + 1 \<and>
          bi_batchSize info = int (length batch))"

definition batchInv :: "int \<Rightarrow> ('u, 'a) bstate \<Rightarrow> bool" where
  "batchInv bsz b =
     (int (length (b_currentBatch b)) < bsz \<and> length (b_batches b) = length (b_calls b) \<and>
      wellNumbered bsz (b_calls b))"

text \<open>
  A transport that always answers with a well-formed envelope: the start index asked for,
  the same total every time, and exactly as many records as the request's page size.
\<close>

definition wellFormed :: "int \<Rightarrow> request \<Rightarrow> 'a envelope \<Rightarrow> bool" where
  "wellFormed count req result =
     (env_StartIndex result = JNum (req_start req) \<and>
      env_TotalResultCount result = JNum count \<and>
      (case env_Results result of
         None \<Rightarrow> False
       | Some pageResults \<Rightarrow> length pageResults = nat (req_pagesize req)))"

definition exactPages :: "int \<Rightarrow> ('w, 'a) fetcher \<Rightarrow> bool" where
  "exactPages count fetch =
     (\<forall>w req. case fetch w req of
                 (Inl e, w1) \<Rightarrow> False
               | (Inr result, w1) \<Rightarrow> wellFormed count req result)"

section \<open>Transports used in the tests\<close>

text \<open>
  A sinon stub with \<^verbatim>\<open>onCall(n).resolves(...)\<close>: the world is the number of calls made
  so far, the n-th call answers with the n-th prepared response whatever the request. A
  call beyond the prepared ones is rejected.
\<close>

definition stub :: "(error + 'a envelope) list \<Rightarrow> (nat, 'a) fetcher" where
  "stub responses n req =
     ((if n < length responses then responses ! n else Inl (RequestError [''no response''])), Suc n)"

text \<open>
  A well-behaved server holding the records \<open>1 .. n\<close>: it answers a request with
  the records from \<open>start\<close> on, at most \<open>pagesize\<close> of them, and echoes the start index.
\<close>

definition server :: "nat \<Rightarrow> (unit, nat) fetcher" where
  "server n u req =
     (Inr \<lparr> env_Results =
              Some (take (nat (req_pagesize req)) (drop (nat (req_start req) - 1) [1 ..< Suc n])),
            env_StartIndex = JNum (req_start req),
            env_PageSize = JNum (req_pagesize req),
            env_TotalResultCount = JNum (int n),
            env_Errors = [], env_Warnings = [] \<rparr>, u)"

text \<open>A caller's callback that keeps nothing and always asks for more.\<close>

definition alwaysContinue :: "unit \<Rightarrow> 'a list \<Rightarrow> 'i \<Rightarrow> bool \<times> unit" where
  "alwaysContinue u recs info = (True, u)"

text \<open>
  The answers of the stubs in the tests: an envelope with the given records, start index
  and total (\<^verbatim>\<open>generateMockResults\<close>); \<open>page s k t\<close> holds the \<open>k\<close> records from
  \<open>s\<close> on.
\<close>

definition mockResults :: "'a list \<Rightarrow> jsval \<Rightarrow> jsval \<Rightarrow> 'a envelope" where
  "mockResults recs s t =
     \<lparr> env_Results = Some recs, env_StartIndex = s,
       env_PageSize = JUndefined, env_TotalResultCount = t,
       env_Errors = [], env_Warnings = [] \<rparr>"

definition resultsPage :: "'a list \<Rightarrow> int \<Rightarrow> int \<Rightarrow> error + 'a envelope" where
  "resultsPage recs s t = Inr (mockResults recs (JNum s) (JNum t))"

definition page :: "nat \<Rightarrow> nat \<Rightarrow> int \<Rightarrow> error + nat envelope" where
  "page s k t = resultsPage [s ..< s + k] (int s) t"

text \<open>The options of the batch test: page size 200, no limit.\<close>

definition batchOptions :: options where
  "batchOptions = \<lparr> opt_start = None, opt_pageSize = Some 200, opt_limit = None \<rparr>"

text \<open>
  The page callback of the early-termination test, \<^verbatim>\<open>pages.push(pageResults); return
  pages.length < 2\<close>, and the options of that test.
\<close>

definition collectPages :: "('a list list, 'a) pageCallback" where
  "collectPages pages pageResults pageInfo =
     (length (pages @ [pageResults]) < 2, pages @ [pageResults])"

definition streamOptions :: options where
  "streamOptions = \<lparr> opt_start = None, opt_pageSize = Some 100, opt_limit = None \<rparr>"

text \<open>
  Page size 10 without a limit, after the merge; and the options of the test with a
  malformed response (no start index, \<^verbatim>\<open>TotalResultCount: 'invalid'\<close>, limit 10).
\<close>

definition guardOptions :: merged where
  "guardOptions = \<lparr> m_start = 1, m_pageSize = 10, m_limit = None \<rparr>"

definition malformedOptions :: options where
  "malformedOptions = \<lparr> opt_start = None, opt_pageSize = None, opt_limit = Some 10 \<rparr>"

text \<open>
  The stub of the performance tests for any request (\<^verbatim>\<open>generateMockResults(start, count,
  total)\<close> with the count asked for), and the options of the page-boundary test.
\<close>

definition mockServer :: "int \<Rightarrow> (unit, nat) fetcher" where
  "mockServer count u req =
     (Inr (mockResults [nat (req_start req) ..< nat (req_start req) + nat (req_pagesize req)]
             (JNum (req_start req)) (JNum count)), u)"

definition boundaryOptions :: options where
  "boundaryOptions = \<lparr> opt_start = None, opt_pageSize = Some 100, opt_limit = Some 200 \<rparr>"

text \<open>Page size 2 and limit 3, used against \<open>server 10\<close>.\<close>

definition smallLimit :: options where
  "smallLimit = \<lparr> opt_start = None, opt_pageSize = Some 2, opt_limit = Some 3 \<rparr>"

section \<open>Properties\<close>

subsection \<open>The drivers, one step at a time\<close>

text \<open>
  Every run of a loop body takes one of four ways: an early exit, the last page, a failed
  request for the next page, or a next page handled by the rest of the loop.
\<close>

lemma loadRemainingPages_Suc_cases:
  assumes "loadRemainingPages (Suc fuel) fetch opts ps result st = (out, st')"
  obtains
    (early) r where "appendPage opts result st = Return r st'" and "out = Some (Inr r)"
  | (last) "appendPage opts result st = Continue st'"
      and "\<not> (isValidPagination opts result \<and> hasMoreData opts result \<and>
               withinLimit opts (q_totalFetched st'))"
      and "out = Some (Inr (finalResult opts result st'))"
  | (failed) st1 e w where "appendPage opts result st = Continue st1"
      and "isValidPagination opts result" and "hasMoreData opts result"
      and "withinLimit opts (q_totalFetched st1)"
      and "fetch (q_world st1) (nextPageOptions opts ps result) = (Inl e, w)"
      and "out = Some (Inl e)"
      and "st' = st1\<lparr> q_world := w,
              q_events := q_events st1 @ [Fetch (nextPageOptions opts ps result) (Inl e)] \<rparr>"
  | (more) st1 nextResult w where "appendPage opts result st = Continue st1"
      and "isValidPagination opts result" and "hasMoreData opts result"
      and "withinLimit opts (q_totalFetched st1)"
      and "fetch (q_world st1) (nextPageOptions opts ps result) = (Inr nextResult, w)"
      and "loadRemainingPages fuel fetch opts ps nextResult
             (st1\<lparr> q_world := w,
                q_events := q_events st1 @ [Fetch (nextPageOptions opts ps result) (Inr nextResult)] \<rparr>)
           = (out, st')"
proof (cases "appendPage opts result st")
  case (Return r st1)
  with assms early show ?thesis by simp
next
  case (Continue st1)
  show ?thesis
  proof (cases "isValidPagination opts result \<and> hasMoreData opts result \<and>
               withinLimit opts (q_totalFetched st1)")
    case False
    with assms Continue last show ?thesis by auto
  next
    case True
    obtain resp w where f: "fetch (q_world st1) (nextPageOptions opts ps result) = (resp, w)"
      by (cases "fetch (q_world st1) (nextPageOptions opts ps result)")
    show ?thesis
    proof (cases resp)
      case (Inl e)
      with assms Continue True f failed[of st1 e w] show ?thesis by (simp add: Let_def)
    next
      case (Inr nextResult)
      with assms Continue True f more[of st1 nextResult w] show ?thesis by (simp add: Let_def)
    qed
  qed
qed

lemma processPages_Suc_cases:
  assumes "processPages (Suc fuel) fetch onPage opts ps result st = (out, st')"
  obtains
    (early) r where "deliverPage opts onPage result st = Return r st'" and "out = Some (Inr r)"
  | (last) "deliverPage opts onPage result st = Continue st'"
      and "\<not> (isValidPagination opts result \<and> hasMoreData opts result \<and>
               withinLimit opts (s_totalProcessed st'))"
      and "out = Some (Inr \<lparr> sr_totalProcessed = s_totalProcessed st', sr_completed = True \<rparr>)"
  | (failed) st1 e w where "deliverPage opts onPage result st = Continue st1"
      and "isValidPagination opts result" and "hasMoreData opts result"
      and "withinLimit opts (s_totalProcessed st1)"
      and "fetch (s_world st1) (nextPageOptions opts ps result) = (Inl e, w)"
      and "out = Some (Inl e)"
      and "st' = st1\<lparr> s_world := w,
              s_events := s_events st1 @ [Fetch (nextPageOptions opts ps result) (Inl e)] \<rparr>"
  | (more) st1 nextResult w where "deliverPage opts onPage result st = Continue st1"
      and "isValidPagination opts result" and "hasMoreData opts result"
      and "withinLimit opts (s_totalProcessed st1)"
      and "fetch (s_world st1) (nextPageOptions opts ps result) = (Inr nextResult, w)"
      and "processPages fuel fetch onPage opts ps nextResult
             (st1\<lparr> s_world := w,
                s_events := s_events st1 @ [Fetch (nextPageOptions opts ps result) (Inr nextResult)] \<rparr>)
           = (out, st')"
proof (cases "deliverPage opts onPage result st")
  case (Return r st1)
  with assms early show ?thesis by simp
next
  case (Continue st1)
  show ?thesis
  proof (cases "isValidPagination opts result \<and> hasMoreData opts result \<and>
               withinLimit opts (s_totalProcessed st1)")
    case False
    with assms Continue last show ?thesis by auto
  next
    case True
    obtain resp w where f: "fetch (s_world st1) (nextPageOptions opts ps result) = (resp, w)"
      by (cases "fetch (s_world st1) (nextPageOptions opts ps result)")
    show ?thesis
    proof (cases resp)
      case (Inl e)
      with assms Continue True f failed[of st1 e w] show ?thesis by (simp add: Let_def)
    next
      case (Inr nextResult)
      with assms Continue True f more[of st1 nextResult w] show ?thesis by (simp add: Let_def)
    qed
  qed
qed

lemma query_cases:
  assumes "query fuel fetch options w = (out, st')"
  obtains
    (failed) e w1 where
      "fetch w \<lparr> req_start = m_start (merge_defaults options),
                 req_pagesize = optimalPageSize (merge_defaults options) \<rparr> = (Inl e, w1)"
      and "out = Some (Inl e)"
      and "st' = \<lparr> q_world = w1, q_results = [], q_totalFetched = 0,
                   q_events = [Fetch \<lparr> req_start = m_start (merge_defaults options),
                      req_pagesize = optimalPageSize (merge_defaults options) \<rparr> (Inl e)] \<rparr>"
  | (first) result w1 where
      "fetch w \<lparr> req_start = m_start (merge_defaults options),
                 req_pagesize = optimalPageSize (merge_defaults options) \<rparr> = (Inr result, w1)"
      and "loadRemainingPages fuel fetch (merge_defaults options)
             (optimalPageSize (merge_defaults options)) result
             \<lparr> q_world = w1, q_results = [], q_totalFetched = 0,
               q_events = [Fetch \<lparr> req_start = m_start (merge_defaults options),
                  req_pagesize = optimalPageSize (merge_defaults options) \<rparr> (Inr result)] \<rparr>
           = (out, st')"
proof -
  obtain resp w1 where f: "fetch w \<lparr> req_start = m_start (merge_defaults options),
      req_pagesize = optimalPageSize (merge_defaults options) \<rparr> = (resp, w1)"
    by (cases "fetch w \<lparr> req_start = m_start (merge_defaults options),
      req_pagesize = optimalPageSize (merge_defaults options) \<rparr>")
  show ?thesis
  proof (cases resp)
    case (Inl e)
    with assms f failed[of e w1] show ?thesis by (simp add: query_def Let_def)
  next
    case (Inr result)
    with assms f first[of result w1] show ?thesis by (simp add: query_def Let_def)
  qed
qed

lemma queryStream_cases:
  assumes "queryStream fuel fetch options onPage w c = (out, st')"
  obtains
    (failed) e w1 where
      "fetch w \<lparr> req_start = m_start (merge_defaults options),
                 req_pagesize = optimalPageSize (merge_defaults options) \<rparr> = (Inl e, w1)"
      and "out = Some (Inl e)"
      and "st' = \<lparr> s_world = w1, s_callback = c, s_totalProcessed = 0,
                   s_events = [Fetch \<lparr> req_start = m_start (merge_defaults options),
                      req_pagesize = optimalPageSize (merge_defaults options) \<rparr> (Inl e)] \<rparr>"
  | (first) result w1 where
      "fetch w \<lparr> req_start = m_start (merge_defaults options),
                 req_pagesize = optimalPageSize (merge_defaults options) \<rparr> = (Inr result, w1)"
      and "processPages fuel fetch onPage (merge_defaults options)
             (optimalPageSize (merge_defaults options)) result
             \<lparr> s_world = w1, s_callback = c, s_totalProcessed = 0,
               s_events = [Fetch \<lparr> req_start = m_start (merge_defaults options),
                  req_pagesize = optimalPageSize (merge_defaults options) \<rparr> (Inr result)] \<rparr>
           = (out, st')"
proof -
  obtain resp w1 where f: "fetch w \<lparr> req_start = m_start (merge_defaults options),
      req_pagesize = optimalPageSize (merge_defaults options) \<rparr> = (resp, w1)"
    by (cases "fetch w \<lparr> req_start = m_start (merge_defaults options),
      req_pagesize = optimalPageSize (merge_defaults options) \<rparr>")
  show ?thesis
  proof (cases resp)
    case (Inl e)
    with assms f failed[of e w1] show ?thesis by (simp add: queryStream_def Let_def)
  next
    case (Inr result)
    with assms f first[of result w1] show ?thesis by (simp add: queryStream_def Let_def)
  qed
qed

text \<open>The trace only grows, and the page steps leave the world alone.\<close>

lemma appendPage_Return:
  "appendPage opts result st = Return r st1 \<Longrightarrow>
     q_events st1 = q_events st \<and> q_world st1 = q_world st \<and> r = finalResult opts result st1"
  by (auto simp: appendPage_def Let_def split: option.splits if_splits)

lemma appendPage_Continue:
  "appendPage opts result st = Continue st1 \<Longrightarrow>
     q_events st1 = q_events st \<and> q_world st1 = q_world st"
  by (auto simp: appendPage_def Let_def split: option.splits if_splits)

lemma deliverPage_events:
  assumes "deliverPage opts onPage result st = Return r st1 \<or>
           deliverPage opts onPage result st = Continue st1"
  shows "s_world st1 = s_world st \<and>
         (s_events st1 = s_events st \<or>
          (\<exists>recs info b. s_events st1 = s_events st @ [PageCall recs info b]))"
  using assms
  by (auto simp: deliverPage_def Let_def split: option.splits if_splits prod.splits)

lemma loadRemainingPages_events_prefix:
  "loadRemainingPages fuel fetch opts ps result st = (out, st') \<Longrightarrow>
     \<exists>more. q_events st' = q_events st @ more"
proof (induction fuel arbitrary: result st)
  case 0
  then show ?case by simp
next
  case (Suc fuel)
  from Suc.prems show ?case
  proof (cases rule: loadRemainingPages_Suc_cases)
    case (early r)
    then show ?thesis using appendPage_Return by fastforce
  next
    case last
    then show ?thesis using appendPage_Continue by fastforce
  next
    case (failed st1 e w)
    then show ?thesis using appendPage_Continue[OF failed(1)] by simp
  next
    case (more st1 nextResult w)
    from Suc.IH[OF more(6)] appendPage_Continue[OF more(1)] show ?thesis by auto
  qed
qed

lemma processPages_events_prefix:
  "processPages fuel fetch onPage opts ps result st = (out, st') \<Longrightarrow>
     \<exists>more. s_events st' = s_events st @ more"
proof (induction fuel arbitrary: result st)
  case 0
  then show ?case by simp
next
  case (Suc fuel)
  from Suc.prems show ?case
  proof (cases rule: processPages_Suc_cases)
    case (early r)
    then show ?thesis using deliverPage_events[of opts onPage result st r st'] by auto
  next
    case last
    then show ?thesis using deliverPage_events[of opts onPage result st undefined st'] by auto
  next
    case (failed st1 e w)
    then show ?thesis using deliverPage_events[of opts onPage result st undefined st1] by auto
  next
    case (more st1 nextResult w)
    from Suc.IH[OF more(6)] deliverPage_events[of opts onPage result st undefined st1] more(1)
    show ?thesis by auto
  qed
qed

subsection \<open>Invariants of the loops\<close>

lemma delivered_append: "delivered (xs @ ys) = delivered xs + delivered ys"
  by (induction xs rule: delivered.induct) simp_all

lemma limitedPageResults_length:
  "limitedPageResults opts tp pageResults = Some limited \<Longrightarrow> m_limit opts = Some l \<Longrightarrow>
     tp + int (length limited) \<le> l"
  by (auto simp: limitedPageResults_def Let_def split: if_splits)

lemma deliverPage_cases:
  obtains
    (skip) "deliverPage opts onPage result st = Continue st"
  | (enough) "deliverPage opts onPage result st =
        Return \<lparr> sr_totalProcessed = s_totalProcessed st, sr_completed = True \<rparr> st"
  | (called) pageResults limited info answer c st1 where
      "env_Results result = Some pageResults"
      and "limitedPageResults opts (s_totalProcessed st) pageResults = Some limited"
      and "onPage (s_callback st) limited info = (answer, c)"
      and "st1 = st\<lparr> s_callback := c,
                      s_totalProcessed := s_totalProcessed st + int (length limited),
                      s_events := s_events st @ [PageCall limited info answer] \<rparr>"
      and "deliverPage opts onPage result st =
             (if \<not> answer then
                Return \<lparr> sr_totalProcessed = s_totalProcessed st1, sr_completed = False \<rparr> st1
              else if limitReached opts (s_totalProcessed st1) then
                Return \<lparr> sr_totalProcessed = s_totalProcessed st1, sr_completed = True \<rparr> st1
              else Continue st1)"
proof (cases "env_Results result")
  case None
  then show ?thesis using skip by (simp add: deliverPage_def)
next
  case (Some pageResults)
  show ?thesis
  proof (cases "length pageResults > 0")
    case False
    with Some show ?thesis using skip by (simp add: deliverPage_def)
  next
    case True
    show ?thesis
    proof (cases "limitedPageResults opts (s_totalProcessed st) pageResults")
      case None
      with Some True show ?thesis using enough by (simp add: deliverPage_def)
    next
      case (Some limited)
      let ?info = "\<lparr> pi_startIndex = env_StartIndex result,
                      pi_pageSize = int (length limited),
                      pi_totalResultCount = env_TotalResultCount result,
                      pi_totalProcessed = s_totalProcessed st + int (length limited) \<rparr>"
      obtain answer c where cb: "onPage (s_callback st) limited ?info = (answer, c)"
        by (cases "onPage (s_callback st) limited ?info")
      show ?thesis
        using called[OF \<open>env_Results result = Some pageResults\<close> Some cb refl]
          \<open>env_Results result = Some pageResults\<close> True Some cb
        by (simp add: deliverPage_def Let_def)
    qed
  qed
qed

lemma loadRemainingPages_invariant:
  assumes run: "loadRemainingPages fuel fetch opts ps result st = (out, st')"
    and init: "I st"
    and page: "\<And>st result r st1. I st \<Longrightarrow>
        appendPage opts result st = Return r st1 \<or> appendPage opts result st = Continue st1 \<Longrightarrow> I st1"
    and request: "\<And>st w req resp. I st \<Longrightarrow>
        I (st\<lparr> q_world := w, q_events := q_events st @ [Fetch req resp] \<rparr>)"
  shows "I st'"
  using run init
proof (induction fuel arbitrary: result st)
  case 0
  then show ?case by simp
next
  case (Suc fuel)
  from Suc.prems(1) show ?case
  proof (cases rule: loadRemainingPages_Suc_cases)
    case (early r)
    then show ?thesis using page[OF Suc.prems(2)] by blast
  next
    case last
    then show ?thesis using page[OF Suc.prems(2)] by blast
  next
    case (failed st1 e w)
    have "I st1" using page[OF Suc.prems(2)] failed(1) by blast
    then show ?thesis unfolding failed(7) by (rule request)
  next
    case (more st1 nextResult w)
    have "I st1" using page[OF Suc.prems(2)] more(1) by blast
    then show ?thesis using Suc.IH[OF more(6)] request by blast
  qed
qed

lemma processPages_invariant:
  assumes run: "processPages fuel fetch onPage opts ps result st = (out, st')"
    and init: "I st"
    and page: "\<And>st result r st1. I st \<Longrightarrow>
        deliverPage opts onPage result st = Return r st1 \<or>
        deliverPage opts onPage result st = Continue st1 \<Longrightarrow> I st1"
    and request: "\<And>st w req resp. I st \<Longrightarrow>
        I (st\<lparr> s_world := w, s_events := s_events st @ [Fetch req resp] \<rparr>)"
  shows "I st'"
  using run init
proof (induction fuel arbitrary: result st)
  case 0
  then show ?case by simp
next
  case (Suc fuel)
  from Suc.prems(1) show ?case
  proof (cases rule: processPages_Suc_cases)
    case (early r)
    then show ?thesis using page[OF Suc.prems(2)] by blast
  next
    case last
    then show ?thesis using page[OF Suc.prems(2)] by blast
  next
    case (failed st1 e w)
    have "I st1" using page[OF Suc.prems(2)] failed(1) by blast
    then show ?thesis unfolding failed(7) by (rule request)
  next
    case (more st1 nextResult w)
    have "I st1" using page[OF Suc.prems(2)] more(1) by blast
    then show ?thesis using Suc.IH[OF more(6)] request by blast
  qed
qed

text \<open>What a resolved run returns is read off the final state.\<close>

lemma loadRemainingPages_Results:
  "loadRemainingPages fuel fetch opts ps result st = (Some (Inr r), st') \<Longrightarrow>
     env_Results r = Some (q_results st')"
proof (induction fuel arbitrary: result st)
  case 0
  then show ?case by simp
next
  case (Suc fuel)
  from Suc.prems show ?case
  proof (cases rule: loadRemainingPages_Suc_cases)
    case (early r1)
    then show ?thesis using appendPage_Return[OF early(1)] by (simp add: finalResult_def)
  next
    case last
    then show ?thesis by (simp add: finalResult_def)
  next
    case (failed st1 e w)
    then show ?thesis by simp
  next
    case (more st1 nextResult w)
    then show ?thesis using Suc.IH by blast
  qed
qed

lemma deliverPage_Return_total:
  "deliverPage opts onPage result st = Return r st1 \<Longrightarrow> sr_totalProcessed r = s_totalProcessed st1"
  by (cases rule: deliverPage_cases[of opts onPage result st]) (auto split: if_splits)

lemma processPages_totalProcessed:
  "processPages fuel fetch onPage opts ps result st = (Some (Inr r), st') \<Longrightarrow>
     sr_totalProcessed r = s_totalProcessed st'"
proof (induction fuel arbitrary: result st)
  case 0
  then show ?case by simp
next
  case (Suc fuel)
  from Suc.prems show ?case
  proof (cases rule: processPages_Suc_cases)
    case (early r1)
    then show ?thesis using deliverPage_Return_total by fastforce
  next
    case last
    then show ?thesis by simp
  next
    case (failed st1 e w)
    then show ?thesis by simp
  next
    case (more st1 nextResult w)
    then show ?thesis using Suc.IH by blast
  qed
qed

text \<open>The limit bounds the accumulator and the count of processed records.\<close>

lemma appendPage_limit:
  assumes "m_limit opts = Some l"
    and "q_totalFetched st = int (length (q_results st)) \<and> q_totalFetched st \<le> l"
    and "appendPage opts result st = Return r st1 \<or> appendPage opts result st = Continue st1"
  shows "q_totalFetched st1 = int (length (q_results st1)) \<and> q_totalFetched st1 \<le> l"
  using assms by (auto simp: appendPage_def Let_def split: option.splits if_splits)

lemma deliverPage_limit:
  assumes "m_limit opts = Some l" and "s_totalProcessed st \<le> l"
    and "deliverPage opts onPage result st = Return r st1 \<or>
         deliverPage opts onPage result st = Continue st1"
  shows "s_totalProcessed st1 \<le> l"
  using assms
  by (cases rule: deliverPage_cases[of opts onPage result st])
     (auto split: if_splits dest: limitedPageResults_length)

lemma deliverPage_delivered:
  assumes "s_totalProcessed st = delivered (s_events st)"
    and "deliverPage opts onPage result st = Return r st1 \<or>
         deliverPage opts onPage result st = Continue st1"
  shows "s_totalProcessed st1 = delivered (s_events st1)"
  using assms
  by (cases rule: deliverPage_cases[of opts onPage result st])
     (auto split: if_splits simp: delivered_append)

lemma deliverPage_callback:
  assumes "J (s_callback st) (s_totalProcessed st)"
    and "\<And>c n recs info. J c n \<Longrightarrow> J (snd (onPage c recs info)) (n + int (length recs))"
    and "deliverPage opts onPage result st = Return r st1 \<or>
         deliverPage opts onPage result st = Continue st1"
  shows "J (s_callback st1) (s_totalProcessed st1)"
proof (cases rule: deliverPage_cases[of opts onPage result st])
  case skip
  then show ?thesis using assms(1,3) by auto
next
  case enough
  then show ?thesis using assms(1,3) by auto
next
  case (called pageResults limited info answer c st2)
  have "J (snd (onPage (s_callback st) limited info)) (s_totalProcessed st + int (length limited))"
    using assms(1) by (rule assms(2))
  then have "J (s_callback st2) (s_totalProcessed st2)" using called(3,4) by simp
  moreover have "st1 = st2" using called(5) assms(3) by (auto split: if_splits)
  ultimately show ?thesis by simp
qed

subsection \<open>The batches\<close>

lemma batched_append: "batched (xs @ ys) = batched xs + batched ys"
  by (induction xs rule: batched.induct) simp_all

lemma flushBatch_total:
  "flushBatch onBatch t st = (answer, st') \<Longrightarrow>
     b_totalProcessed st' = b_totalProcessed st + int (length (b_currentBatch st)) \<and>
     b_currentBatch st' = [] \<and>
     batched (b_calls st') = batched (b_calls st) + int (length (b_currentBatch st))"
  by (auto simp: flushBatch_def Let_def batched_append split: prod.splits)

lemma onPageBatch_total:
  "onPageBatch bsz onBatch st recs info = (answer, st') \<Longrightarrow>
     b_totalProcessed st = batched (b_calls st) \<Longrightarrow>
     b_totalProcessed st' = batched (b_calls st') \<and>
     b_totalProcessed st' + int (length (b_currentBatch st'))
       \<le> b_totalProcessed st + int (length (b_currentBatch st)) + int (length recs)"
proof (induction recs arbitrary: st)
  case Nil
  then show ?case by simp
next
  case (Cons result recs)
  let ?st1 = "st\<lparr> b_currentBatch := b_currentBatch st @ [result] \<rparr>"
  show ?case
  proof (cases "int (length (b_currentBatch ?st1)) \<ge> bsz")
    case False
    with Cons.prems(1) have "onPageBatch bsz onBatch ?st1 recs info = (answer, st')"
      by (simp add: Let_def)
    from Cons.IH[OF this] Cons.prems(2) show ?thesis by simp
  next
    case True
    obtain a st2 where f: "flushBatch onBatch (pi_totalResultCount info) ?st1 = (a, st2)"
      by (cases "flushBatch onBatch (pi_totalResultCount info) ?st1")
    note ft = flushBatch_total[OF f]
    show ?thesis
    proof (cases a)
      case False
      with Cons.prems(1) True f have "st' = st2" by (simp add: Let_def)
      with ft Cons.prems(2) show ?thesis by simp
    next
      case True
      with Cons.prems(1) \<open>int (length (b_currentBatch ?st1)) \<ge> bsz\<close> f
      have "onPageBatch bsz onBatch st2 recs info = (answer, st')" by (simp add: Let_def)
      from Cons.IH[OF this] ft Cons.prems(2) show ?thesis by simp
    qed
  qed
qed

lemma onPageBatch_batchBound:
  "batchBound b n \<Longrightarrow> batchBound (snd (onPageBatch bsz onBatch b recs info)) (n + int (length recs))"
  using onPageBatch_total[OF surjective_pairing, where bsz = bsz and onBatch = onBatch
          and st = b and recs = recs and info = info]
  by (simp add: batchBound_def)

lemma finalFlush_total:
  "finalFlush onBatch sr b = (r, b') \<Longrightarrow> b_totalProcessed b = batched (b_calls b) \<Longrightarrow>
     br_totalProcessed r = batched (b_calls b') \<and>
     batched (b_calls b') = b_totalProcessed b + int (length (b_currentBatch b))"
  by (auto simp: finalFlush_def Let_def batched_append split: prod.splits if_splits)

lemma query_limit:
  assumes "opt_limit options = Some l" and "0 \<le> l"
    and "query fuel fetch options w = (Some (Inr r), st)"
  shows "env_Results r = Some (q_results st) \<and> int (length (q_results st)) \<le> l"
  using assms(3)
proof (cases rule: query_cases)
  case (failed e w1)
  then show ?thesis by simp
next
  case (first result w1)
  have lim: "m_limit (merge_defaults options) = Some l"
    using assms(1) by (simp add: merge_defaults_def)
  have "q_totalFetched st = int (length (q_results st)) \<and> q_totalFetched st \<le> l"
    by (rule loadRemainingPages_invariant[OF first(2),
          where I = "\<lambda>s. q_totalFetched s = int (length (q_results s)) \<and> q_totalFetched s \<le> l"])
       (use assms(2) appendPage_limit[OF lim] in auto)
  with loadRemainingPages_Results[OF first(2)] show ?thesis by simp
qed

lemma queryStream_limit:
  assumes "opt_limit options = Some l" and "0 \<le> l"
    and "queryStream fuel fetch options onPage w c = (out, st)"
  shows "s_totalProcessed st \<le> l"
  using assms(3)
proof (cases rule: queryStream_cases)
  case (failed e w1)
  then show ?thesis using assms(2) by simp
next
  case (first result w1)
  have lim: "m_limit (merge_defaults options) = Some l"
    using assms(1) by (simp add: merge_defaults_def)
  show ?thesis
    apply (rule processPages_invariant[OF first(2), where I = "\<lambda>s. s_totalProcessed s \<le> l"])
      apply (simp add: assms(2))
     apply (erule (1) deliverPage_limit[OF lim])
    apply (simp add: assms(2))
    done
qed

lemma queryStream_delivered:
  assumes "queryStream fuel fetch options onPage w c = (out, st)"
  shows "s_totalProcessed st = delivered (s_events st)"
  using assms
proof (cases rule: queryStream_cases)
  case (failed e w1)
  then show ?thesis by simp
next
  case (first result w1)
  show ?thesis
    apply (rule processPages_invariant[OF first(2), where I = "\<lambda>s. s_totalProcessed s = delivered (s_events s)"])
      apply (simp add: delivered_append)
     apply (erule (1) deliverPage_delivered)
    apply (simp add: delivered_append)
    done
qed

lemma queryStream_totalProcessed:
  assumes "queryStream fuel fetch options onPage w c = (Some (Inr sr), st)"
  shows "sr_totalProcessed sr = s_totalProcessed st"
  using assms
  by (cases rule: queryStream_cases) (auto dest: processPages_totalProcessed)

lemma queryStream_callback:
  assumes "queryStream fuel fetch options onPage w c = (out, st)"
    and "J c 0"
    and "\<And>c n recs info. J c n \<Longrightarrow> J (snd (onPage c recs info)) (n + int (length recs))"
  shows "J (s_callback st) (s_totalProcessed st)"
  using assms(1)
proof (cases rule: queryStream_cases)
  case (failed e w1)
  then show ?thesis using assms(2) by simp
next
  case (first result w1)
  show ?thesis
  proof (rule processPages_invariant[OF first(2), where I = "\<lambda>s. J (s_callback s) (s_totalProcessed s)"], goal_cases)
    case 1
    then show ?case by (simp add: assms(2))
  next
    case (2 s result r s1)
    show ?case
    proof (rule deliverPage_callback[where J = J and onPage = onPage])
      show "J (s_callback s) (s_totalProcessed s)" by (rule 2(1))
      show "deliverPage (merge_defaults options) onPage result s = Return r s1 \<or>
            deliverPage (merge_defaults options) onPage result s = Continue s1" by (rule 2(2))
    qed (rule assms(3))
  next
    case (3 s w req resp)
    then show ?case by simp
  qed
qed

subsection \<open>limit = 0\<close>

lemma loadRemainingPages_limit_zero:
  "m_limit opts = Some 0 \<Longrightarrow> q_totalFetched st = 0 \<Longrightarrow>
   q_events (snd (loadRemainingPages fuel fetch opts ps result st)) = q_events st"
  by (cases fuel) (auto simp: appendPage_def withinLimit_def Let_def split: option.splits)

text \<open>
  C5. The claim: with \<open>limit = 0\<close> the query returns zero results and issues no request.
  The code: whatever the transport and the other options, a query with \<open>limit = 0\<close>
  issues exactly one request, with the caller's page size (200 when none is given).
\<close>

theorem query_limit_zero_one_request:
  "q_events (snd (query fuel fetch \<lparr> opt_start = s, opt_pageSize = p, opt_limit = Some 0 \<rparr> w)) =
     [Fetch \<lparr> req_start = (case s of None \<Rightarrow> 1 | Some i \<Rightarrow> i),
              req_pagesize = (case p of None \<Rightarrow> 200 | Some i \<Rightarrow> i) \<rparr>
        (fst (fetch w \<lparr> req_start = (case s of None \<Rightarrow> 1 | Some i \<Rightarrow> i),
                        req_pagesize = (case p of None \<Rightarrow> 200 | Some i \<Rightarrow> i) \<rparr>))]"
  by (simp add: query_def merge_defaults_def optimalPageSize_def Let_def
       loadRemainingPages_limit_zero split: prod.splits sum.splits)

subsection \<open>Page size 0\<close>

lemma optimalPageSize_nonpositive:
  "optimalPageSize (merge_defaults \<lparr> opt_start = s, opt_pageSize = Some (- int n), opt_limit = lim \<rparr>) = - int n"
  by (simp add: optimalPageSize_def merge_defaults_def split: option.splits)

text \<open>
  C4. The claim: a page size of 0 or less is raised to 1 before the first request. The
  code: the first request of \<open>query\<close> and of \<open>queryStream\<close> carries the page size
  as the caller gave it, for every value \<open>- n\<close> with \<open>n \<ge> 0\<close>, whatever the limit.
\<close>

theorem pageSize_not_corrected:
  "take 1 (q_events (snd (query fuel fetch \<lparr> opt_start = s, opt_pageSize = Some (- int n), opt_limit = lim \<rparr> w))) =
     [Fetch \<lparr> req_start = (case s of None \<Rightarrow> 1 | Some i \<Rightarrow> i), req_pagesize = - int n \<rparr>
        (fst (fetch w \<lparr> req_start = (case s of None \<Rightarrow> 1 | Some i \<Rightarrow> i), req_pagesize = - int n \<rparr>))]
   \<and>
   take 1 (s_events (snd (queryStream fuel fetch \<lparr> opt_start = s, opt_pageSize = Some (- int n), opt_limit = lim \<rparr> onPage w c))) =
     [Fetch \<lparr> req_start = (case s of None \<Rightarrow> 1 | Some i \<Rightarrow> i), req_pagesize = - int n \<rparr>
        (fst (fetch w \<lparr> req_start = (case s of None \<Rightarrow> 1 | Some i \<Rightarrow> i), req_pagesize = - int n \<rparr>))]"
proof -
  let ?options = "\<lparr> opt_start = s, opt_pageSize = Some (- int n), opt_limit = lim \<rparr>"
  let ?req = "\<lparr> req_start = (case s of None \<Rightarrow> 1 | Some i \<Rightarrow> i), req_pagesize = - int n \<rparr>"
  have req: "\<lparr> req_start = m_start (merge_defaults ?options),
               req_pagesize = optimalPageSize (merge_defaults ?options) \<rparr> = ?req"
    by (simp add: optimalPageSize_nonpositive) (simp add: merge_defaults_def)
  obtain out st where q: "query fuel fetch ?options w = (out, st)"
    by (cases "query fuel fetch ?options w")
  have "take 1 (q_events st) = [Fetch ?req (fst (fetch w ?req))]"
    using q
  proof (cases rule: query_cases)
    case (failed e w1)
    then show ?thesis unfolding req by simp
  next
    case (first result w1)
    from loadRemainingPages_events_prefix[OF first(2)] first(1) show ?thesis
      unfolding req by auto
  qed
  moreover
  obtain out' st' where qs: "queryStream fuel fetch ?options onPage w c = (out', st')"
    by (cases "queryStream fuel fetch ?options onPage w c")
  have "take 1 (s_events st') = [Fetch ?req (fst (fetch w ?req))]"
    using qs
  proof (cases rule: queryStream_cases)
    case (failed e w1)
    then show ?thesis unfolding req by simp
  next
    case (first result w1)
    from processPages_events_prefix[OF first(2)] first(1) show ?thesis
      unfolding req by auto
  qed
  ultimately show ?thesis using q qs by simp
qed

subsection \<open>The total result count of the final batch\<close>

text \<open>
  C8. The claim: every \<open>batchInfo\<close>, the one of the final flush too, carries the
  server's total result count. The code: against a server of 10 records, with page size 2,
  limit 3 and batch size 2, the first batch is told 10 and the final flush is told 3, the
  number of records the stream has processed.
\<close>

theorem final_batch_totalResultCount:
  "map (\<lambda>(b, i, a). (b, bi_totalResultCount i))
     (b_calls (s_callback (snd (queryBatch 5 (server 10)
        \<lparr> opt_start = None, opt_pageSize = Some 2, opt_limit = Some 3 \<rparr> (Some 2) alwaysContinue () ())))) =
   [([1, 2], JNum 10), ([3], JNum 3)]"
  by code_simp

subsection \<open>The limit\<close>

text \<open>
  C1. With a limit \<open>l\<close> supplied (a limit is a count: \<open>0 \<le> l\<close>), whatever pages the
  transport returns: the \<^verbatim>\<open>Results\<close> of a resolved \<open>query\<close> has at most \<open>l\<close>
  records; the records handed to the page callback of \<open>queryStream\<close> are at most \<open>l\<close>
  at any outcome, and a resolved stream reports exactly their number as
  \<open>totalProcessed\<close>; the records handed to the batch callback of \<open>queryBatch\<close> are at
  most \<open>l\<close> at any outcome, and a resolved run reports exactly their number.
\<close>

theorem limit_never_exceeded:
  fixes fetch :: "('w, 'a) fetcher"
    and onPage :: "('c, 'a) pageCallback"
    and onBatch :: "('u, 'a) batchCallback"
  assumes "opt_limit options = Some l" and "0 \<le> l"
  shows
    "(\<forall>r st. query fuel fetch options w = (Some (Inr r), st) \<longrightarrow>
        (\<exists>rs. env_Results r = Some rs \<and> int (length rs) \<le> l)) \<and>
     (\<forall>out st. queryStream fuel fetch options onPage w c = (out, st) \<longrightarrow>
        delivered (s_events st) \<le> l \<and>
        (\<forall>sr. out = Some (Inr sr) \<longrightarrow>
           sr_totalProcessed sr = delivered (s_events st) \<and> sr_totalProcessed sr \<le> l)) \<and>
     (\<forall>out st. queryBatch fuel fetch options batchSize onBatch w u = (out, st) \<longrightarrow>
        batched (b_calls (s_callback st)) \<le> l \<and>
        (\<forall>br. out = Some (Inr br) \<longrightarrow>
           br_totalProcessed br = batched (b_calls (s_callback st)) \<and> br_totalProcessed br \<le> l))"
proof (intro conjI allI impI)
  fix r st
  assume "query fuel fetch options w = (Some (Inr r), st)"
  from query_limit[OF assms this]
  show "\<exists>rs. env_Results r = Some rs \<and> int (length rs) \<le> l" by blast
next
  fix out and st :: "('w, 'c, 'a) sstate"
  assume run: "queryStream fuel fetch options onPage w c = (out, st)"
  from queryStream_limit[OF assms run] queryStream_delivered[OF run]
  show d: "delivered (s_events st) \<le> l" by simp
  fix sr
  assume "out = Some (Inr sr)"
  with run queryStream_totalProcessed[of fuel fetch options onPage w c sr st]
    queryStream_delivered[OF run]
  show "sr_totalProcessed sr = delivered (s_events st)" by simp
  with d show "sr_totalProcessed sr \<le> l" by simp
next
  fix out and st :: "('w, ('u, 'a) bstate, 'a) sstate"
  assume run: "queryBatch fuel fetch options batchSize onBatch w u = (out, st)"
  let ?bsz = "defaultBatchSize options batchSize"
  let ?b0 = "initialBatchState u :: ('u, 'a) bstate"
  obtain out1 st1 where stream:
    "queryStream fuel fetch options (onPageBatch ?bsz onBatch) w ?b0 = (out1, st1)"
    by (cases "queryStream fuel fetch options (onPageBatch ?bsz onBatch) w ?b0")
  have bound: "batchBound (s_callback st1) (s_totalProcessed st1)"
  proof (rule queryStream_callback[OF stream, where J = batchBound])
    show "batchBound ?b0 0" by (simp add: batchBound_def initialBatchState_def)
  qed (rule onPageBatch_batchBound)
  have tp: "s_totalProcessed st1 \<le> l" by (rule queryStream_limit[OF assms stream])
  have "batched (b_calls (s_callback st)) \<le> l \<and>
        (\<forall>br. out = Some (Inr br) \<longrightarrow> br_totalProcessed br = batched (b_calls (s_callback st)))"
  proof (cases out1)
    case None
    with run stream have "st = st1" by (simp add: queryBatch_def Let_def)
    with bound tp None run stream show ?thesis
      by (auto simp: batchBound_def queryBatch_def Let_def)
  next
    case (Some res)
    show ?thesis
    proof (cases res)
      case (Inl e)
      with Some run stream have "st = st1" "out = Some (Inl e)" by (simp_all add: queryBatch_def Let_def)
      with bound tp show ?thesis by (auto simp: batchBound_def)
    next
      case (Inr sr)
      obtain r b where ff: "finalFlush onBatch sr (s_callback st1) = (r, b)"
        by (cases "finalFlush onBatch sr (s_callback st1)")
      with Some Inr run stream have eq: "st = st1\<lparr> s_callback := b \<rparr>" "out = Some (Inr r)"
        by (simp_all add: queryBatch_def Let_def)
      from finalFlush_total[OF ff] bound tp eq show ?thesis by (auto simp: batchBound_def)
    qed
  qed
  then show "batched (b_calls (s_callback st)) \<le> l" by simp
  fix br assume "out = Some (Inr br)"
  with \<open>batched (b_calls (s_callback st)) \<le> l \<and> _\<close>
  show "br_totalProcessed br = batched (b_calls (s_callback st))" "br_totalProcessed br \<le> l" by auto
qed


theorem limit_never_exceeded_witness:
  "opt_limit smallLimit = Some 3 \<and> (0::int) \<le> 3 \<and>
   fst (query 5 (server 10) smallLimit ()) =
     Some (Inr \<lparr> env_Results = Some [1, 2, 3], env_StartIndex = JNum 1, env_PageSize = JNum 3,
                  env_TotalResultCount = JNum 10, env_Errors = [], env_Warnings = [] \<rparr>) \<and>
   (\<exists>rs. Some [1, 2, 3 :: nat] = Some rs \<and> int (length rs) \<le> 3) \<and>
   fst (queryStream 5 (server 10) smallLimit alwaysContinue () ()) =
     Some (Inr \<lparr> sr_totalProcessed = 3, sr_completed = True \<rparr>) \<and>
   delivered (s_events (snd (queryStream 5 (server 10) smallLimit alwaysContinue () ()))) \<le> 3 \<and>
   fst (queryBatch 5 (server 10) smallLimit (Some 2) alwaysContinue () ()) =
     Some (Inr \<lparr> br_totalProcessed = 3, br_totalBatches = 2, br_completed = True \<rparr>) \<and>
   batched (b_calls (s_callback (snd (queryBatch 5 (server 10) smallLimit (Some 2) alwaysContinue () ())))) \<le> 3"
proof -
  let ?R = "\<lparr> env_Results = Some [1, 2, 3 :: nat], env_StartIndex = JNum 1, env_PageSize = JNum 3,
              env_TotalResultCount = JNum 10, env_Errors = [], env_Warnings = [] \<rparr>"
  have lim: "opt_limit smallLimit = Some 3" by (simp add: smallLimit_def)
  have pos: "(0::int) \<le> 3" by simp
  note inst = limit_never_exceeded[OF lim pos, of 5 "server 10" "()" alwaysContinue "()" "Some 2" alwaysContinue "()"]
  have q: "fst (query 5 (server 10) smallLimit ()) = Some (Inr ?R)" by code_simp
  have s: "fst (queryStream 5 (server 10) smallLimit alwaysContinue () ()) =
     Some (Inr \<lparr> sr_totalProcessed = 3, sr_completed = True \<rparr>)" by code_simp
  have b: "fst (queryBatch 5 (server 10) smallLimit (Some 2) alwaysContinue () ()) =
     Some (Inr \<lparr> br_totalProcessed = 3, br_totalBatches = 2, br_completed = True \<rparr>)" by code_simp
  have q': "query 5 (server 10) smallLimit () = (Some (Inr ?R), snd (query 5 (server 10) smallLimit ()))"
    using q by (metis prod.collapse)
  from inst q' have 1: "\<exists>rs. env_Results ?R = Some rs \<and> int (length rs) \<le> 3" by blast
  from inst have 2: "delivered (s_events (snd (queryStream 5 (server 10) smallLimit alwaysContinue () ()))) \<le> 3"
    by (metis prod.collapse)
  from inst have 3: "batched (b_calls (s_callback (snd (queryBatch 5 (server 10) smallLimit (Some 2) alwaysContinue () ())))) \<le> 3"
    by (metis prod.collapse)
  from lim pos q s b 1 2 3 show ?thesis by simp
qed

subsection \<open>A failed request\<close>

lemma loadRemainingPages_failure:
  assumes "loadRemainingPages fuel fetch opts ps result st = (out, st')"
    and "\<not> list_ex is_failure (q_events st)"
  shows "(\<not> list_ex is_failure (q_events st') \<and> (\<forall>e. out \<noteq> Some (Inl e))) \<or>
         (\<exists>pre req e. q_events st' = pre @ [Fetch req (Inl e)] \<and> \<not> list_ex is_failure pre \<and>
            out = Some (Inl e))"
  using assms
proof (induction fuel arbitrary: result st)
  case 0
  then show ?case by simp
next
  case (Suc fuel)
  from Suc.prems(1) show ?case
  proof (cases rule: loadRemainingPages_Suc_cases)
    case (early r)
    then show ?thesis using appendPage_Return[OF early(1)] Suc.prems(2) by simp
  next
    case last
    then show ?thesis using appendPage_Continue[OF last(1)] Suc.prems(2) by simp
  next
    case (failed st1 e w)
    then show ?thesis using appendPage_Continue[OF failed(1)] Suc.prems(2) by simp
  next
    case (more st1 nextResult w)
    have "\<not> list_ex is_failure (q_events (st1\<lparr> q_world := w,
                q_events := q_events st1 @ [Fetch (nextPageOptions opts ps result) (Inr nextResult)] \<rparr>))"
      using appendPage_Continue[OF more(1)] Suc.prems(2) by simp
    from Suc.IH[OF more(6) this] show ?thesis .
  qed
qed

text \<open>
  C9. When a request of \<open>query\<close> is rejected, the first or a later one, the query is
  rejected with the error of that request, unchanged; the rejected request is the last
  event (nothing is retried) and the only rejected one. A rejection carries the error
  alone: the records of the earlier pages are in the abandoned state, not in the outcome.
\<close>

theorem query_fetch_failure:
  assumes "query fuel fetch options w = (out, st)"
    and "Fetch req (Inl e) \<in> set (q_events st)"
  shows "out = Some (Inl e) \<and> last (q_events st) = Fetch req (Inl e) \<and>
         \<not> list_ex is_failure (butlast (q_events st))"
  using assms(1)
proof (cases rule: query_cases)
  case (failed e1 w1)
  with assms(2) show ?thesis by auto
next
  case (first result w1)
  from loadRemainingPages_failure[OF first(2)]
  consider "\<not> list_ex is_failure (q_events st)"
    | pre req1 e1 where "q_events st = pre @ [Fetch req1 (Inl e1)]" "\<not> list_ex is_failure pre"
        "out = Some (Inl e1)"
    by auto
  then show ?thesis
  proof cases
    case 1
    with assms(2) show ?thesis by (auto simp: list_ex_iff)
  next
    case 2
    with assms(2) show ?thesis by (auto simp: list_ex_iff)
  qed
qed

theorem query_fetch_failure_witness:
  "Fetch \<lparr> req_start = 101, req_pagesize = 100 \<rparr> (Inl (RequestError [''503'']))
     \<in> set (q_events (snd (query 5 (stub [page 1 100 10000, Inl (RequestError [''503''])])
          \<lparr> opt_start = None, opt_pageSize = Some 100, opt_limit = Some 250 \<rparr> 0))) \<and>
   fst (query 5 (stub [page 1 100 10000, Inl (RequestError [''503''])])
          \<lparr> opt_start = None, opt_pageSize = Some 100, opt_limit = Some 250 \<rparr> 0)
     = Some (Inl (RequestError [''503'']))"
proof -
  let ?q = "query 5 (stub [page 1 100 10000, Inl (RequestError [''503''])])
          \<lparr> opt_start = None, opt_pageSize = Some 100, opt_limit = Some 250 \<rparr> 0"
  have h: "Fetch \<lparr> req_start = 101, req_pagesize = 100 \<rparr> (Inl (RequestError [''503'']))
     \<in> set (q_events (snd ?q))" by code_simp
  from query_fetch_failure[OF surjective_pairing h] h show ?thesis by simp
qed

subsection \<open>The final flush\<close>

text \<open>
  C10. When the underlying stream resolves with \<open>sr\<close>, completed or stopped, leaving the
  shared state \<open>b\<close>, \<open>queryBatch\<close> resolves with the pending records counted in
  \<open>totalProcessed\<close>, one more batch counted when there are pending records, and
  \<open>completed\<close> copied from \<open>sr\<close>. With pending records the batch callback is called
  once more, on exactly these; its answer is recorded in the trace and appears nowhere in
  the result.
\<close>

theorem queryBatch_final_flush:
  fixes fetch :: "('w, 'a) fetcher" and onBatch :: "('u, 'a) batchCallback"
  assumes "queryStream fuel fetch options (onPageBatch (defaultBatchSize options batchSize) onBatch)
             w (initialBatchState u) = (Some (Inr sr), st1)"
    and "b = s_callback st1"
  shows "\<exists>st. queryBatch fuel fetch options batchSize onBatch w u =
           (Some (Inr \<lparr> br_totalProcessed = b_totalProcessed b + int (length (b_currentBatch b)),
                        br_totalBatches = int (length (b_batches b)) +
                                          (if b_currentBatch b = [] then 0 else 1),
                        br_completed = sr_completed sr \<rparr>), st) \<and>
           b_calls (s_callback st) =
             b_calls b @
               (if b_currentBatch b = [] then []
                else [(b_currentBatch b, finalBatchInfo sr b,
                       fst (onBatch (b_user b) (b_currentBatch b) (finalBatchInfo sr b)))])"
  using assms
  by (auto simp: queryBatch_def initialBatchState_def finalFlush_def finalBatchInfo_def Let_def
           split: prod.splits)

theorem queryBatch_final_flush_witness:
  "fst (queryStream 5 (server 10) smallLimit (onPageBatch (defaultBatchSize smallLimit (Some 2)) alwaysContinue)
          () (initialBatchState ())) = Some (Inr \<lparr> sr_totalProcessed = 3, sr_completed = True \<rparr>) \<and>
   b_currentBatch (s_callback (snd (queryStream 5 (server 10) smallLimit
       (onPageBatch (defaultBatchSize smallLimit (Some 2)) alwaysContinue) () (initialBatchState ())))) = [3] \<and>
   fst (queryBatch 5 (server 10) smallLimit (Some 2) alwaysContinue () ()) =
     Some (Inr \<lparr> br_totalProcessed = 3, br_totalBatches = 2, br_completed = True \<rparr>)"
proof -
  let ?Q = "queryStream 5 (server 10) smallLimit
       (onPageBatch (defaultBatchSize smallLimit (Some 2)) alwaysContinue) () (initialBatchState ())"
  have f: "fst ?Q = Some (Inr \<lparr> sr_totalProcessed = 3, sr_completed = True \<rparr>)" by code_simp
  have c: "b_currentBatch (s_callback (snd ?Q)) = [3]" by code_simp
  have t: "b_totalProcessed (s_callback (snd ?Q)) = 2" by code_simp
  have n: "b_batches (s_callback (snd ?Q)) = [[1, 2]]" by code_simp
  have Q: "?Q = (Some (Inr \<lparr> sr_totalProcessed = 3, sr_completed = True \<rparr>), snd ?Q)"
    using f by (metis prod.collapse)
  from queryBatch_final_flush[OF Q refl] c t n
  have "fst (queryBatch 5 (server 10) smallLimit (Some 2) alwaysContinue () ()) =
     Some (Inr \<lparr> br_totalProcessed = 3, br_totalBatches = 2, br_completed = True \<rparr>)"
    by auto
  with f c show ?thesis by simp
qed

subsection \<open>Batch sizes and numbers\<close>

lemma wellNumbered_snoc:
  "wellNumbered bsz calls \<Longrightarrow> int (length batch) = bsz \<Longrightarrow>
   bi_batchNumber info = int (length calls) + 1 \<Longrightarrow> bi_batchSize info = int (length batch) \<Longrightarrow>
   wellNumbered bsz (calls @ [(batch, info, answer)])"
  by (auto simp: wellNumbered_def nth_append less_Suc_eq)

lemma flushBatch_batchInv:
  assumes "flushBatch onBatch t b = (answer, b')"
    and "length (b_batches b) = length (b_calls b)" and "wellNumbered bsz (b_calls b)"
    and "int (length (b_currentBatch b)) = bsz" and "1 \<le> bsz"
  shows "batchInv bsz b'"
proof -
  obtain a u' where cb: "onBatch (b_user b) (b_currentBatch b)
      \<lparr> bi_batchNumber = int (length (b_batches b)) + 1,
        bi_batchSize = int (length (b_currentBatch b)),
        bi_totalProcessed = b_totalProcessed b + int (length (b_currentBatch b)),
        bi_totalResultCount = t \<rparr> = (a, u')"
    by (cases "onBatch (b_user b) (b_currentBatch b)
      \<lparr> bi_batchNumber = int (length (b_batches b)) + 1,
        bi_batchSize = int (length (b_currentBatch b)),
        bi_totalProcessed = b_totalProcessed b + int (length (b_currentBatch b)),
        bi_totalResultCount = t \<rparr>")
  with assms(1) have b': "b_currentBatch b' = []" "b_batches b' = b_batches b @ [b_currentBatch b]"
    "b_calls b' = b_calls b @ [(b_currentBatch b,
      \<lparr> bi_batchNumber = int (length (b_batches b)) + 1,
        bi_batchSize = int (length (b_currentBatch b)),
        bi_totalProcessed = b_totalProcessed b + int (length (b_currentBatch b)),
        bi_totalResultCount = t \<rparr>, a)]"
    by (auto simp: flushBatch_def Let_def)
  have "wellNumbered bsz (b_calls b')"
    unfolding b'(3) by (rule wellNumbered_snoc[OF assms(3,4)]) (simp_all add: assms(2))
  with b' assms(2,5) show ?thesis by (simp add: batchInv_def)
qed

lemma onPageBatch_batchInv:
  assumes "1 \<le> bsz"
  shows "batchInv bsz b \<Longrightarrow> batchInv bsz (snd (onPageBatch bsz onBatch b recs info))"
proof (induction recs arbitrary: b)
  case Nil
  then show ?case by simp
next
  case (Cons result recs)
  let ?b1 = "b\<lparr> b_currentBatch := b_currentBatch b @ [result] \<rparr>"
  show ?case
  proof (cases "int (length (b_currentBatch ?b1)) \<ge> bsz")
    case False
    with Cons.prems have "batchInv bsz ?b1" by (simp add: batchInv_def)
    from Cons.IH[OF this] False show ?thesis by (simp add: Let_def)
  next
    case True
    obtain a b2 where f: "flushBatch onBatch (pi_totalResultCount info) ?b1 = (a, b2)"
      by (cases "flushBatch onBatch (pi_totalResultCount info) ?b1")
    have "int (length (b_currentBatch ?b1)) = bsz" using True Cons.prems by (simp add: batchInv_def)
    with Cons.prems have inv2: "batchInv bsz b2"
      by (intro flushBatch_batchInv[OF f _ _ _ assms]) (simp_all add: batchInv_def)
    show ?thesis
    proof (cases a)
      case False
      with True f inv2 show ?thesis by (simp add: Let_def)
    next
      case True
      with \<open>int (length (b_currentBatch ?b1)) \<ge> bsz\<close> f Cons.IH[OF inv2] show ?thesis
        by (simp add: Let_def)
    qed
  qed
qed

lemma finalFlush_calls:
  assumes "finalFlush onBatch sr b = (r, b')" and "batchInv bsz b"
  shows "\<exists>final. b_calls b' = b_calls b @ final \<and> wellNumbered bsz (b_calls b) \<and>
           (final = [] \<or>
            (\<exists>batch info answer. final = [(batch, info, answer)] \<and> 1 \<le> length batch \<and>
               int (length batch) < bsz \<and> bi_batchNumber info = int (length (b_calls b)) + 1 \<and>
               bi_batchSize info = int (length batch)))"
  using assms
  by (auto simp: finalFlush_def batchInv_def Let_def Suc_le_eq split: prod.splits if_splits)


lemma onPageBatch_short:
  "int (length (b_currentBatch b)) + int (length xs) < bsz \<Longrightarrow>
     onPageBatch bsz onBatch b xs info = (True, b\<lparr> b_currentBatch := b_currentBatch b @ xs \<rparr>)"
  by (induction xs arbitrary: b) (simp_all add: Let_def)

lemma onPageBatch_fill:
  "int (length (b_currentBatch b)) < bsz \<Longrightarrow>
   int (length (b_currentBatch b)) + int (length xs) = bsz \<Longrightarrow>
     onPageBatch bsz onBatch b (xs @ ys) info =
       (case flushBatch onBatch (pi_totalResultCount info)
               (b\<lparr> b_currentBatch := b_currentBatch b @ xs \<rparr>) of
          (continueProcessing, b2) \<Rightarrow>
            if \<not> continueProcessing then (False, b2)
            else onPageBatch bsz onBatch b2 ys info)"
proof (induction xs arbitrary: b)
  case Nil
  then show ?case by simp
next
  case (Cons x xs)
  show ?case
  proof (cases "xs = []")
    case True
    with Cons.prems show ?thesis by (simp add: Let_def split: prod.splits)
  next
    case False
    let ?b1 = "b\<lparr> b_currentBatch := b_currentBatch b @ [x] \<rparr>"
    have "int (length (b_currentBatch ?b1)) < bsz"
      and "int (length (b_currentBatch ?b1)) + int (length xs) = bsz"
      using Cons.prems False by (cases xs; simp)+
    moreover have "\<not> bsz \<le> 1 + int (length (b_currentBatch b))"
      using Cons.prems False by (cases xs; simp)
    ultimately show ?thesis using Cons.IH[of ?b1] by (simp add: Let_def)
  qed
qed

lemma queryBatch_two_pages:
  fixes c1 c2 c3 d1 d2 d3 :: "'a list"
  assumes "length c1 = 75" "length c2 = 75" "length c3 = 50"
    and "length d1 = 25" "length d2 = 75" "length d3 = 50"
  shows "fst (queryBatch (Suc (Suc fuel))
            (stub [resultsPage (c1 @ c2 @ c3) 1 350, resultsPage (d1 @ d2 @ d3) 201 350])
            batchOptions (Some 75)
            alwaysContinue 0 ()) =
           Some (Inr \<lparr> br_totalProcessed = 350, br_totalBatches = 5, br_completed = True \<rparr>) \<and>
         map (\<lambda>(batch, info, answer). (batch, bi_batchNumber info))
           (b_calls (s_callback (snd (queryBatch (Suc (Suc fuel))
            (stub [resultsPage (c1 @ c2 @ c3) 1 350, resultsPage (d1 @ d2 @ d3) 201 350])
            batchOptions (Some 75)
            alwaysContinue 0 ())))) =
           [(c1, 1), (c2, 2), (c3 @ d1, 3), (d2, 4), (d3, 5)]"
  using assms
  by (simp add: queryBatch_def queryStream_def stub_def resultsPage_def mockResults_def merge_defaults_def
        optimalPageSize_def defaultBatchSize_def deliverPage_def limitedPageResults_def
        limitReached_def isValidPagination_def hasMoreData_def withinLimit_def
        nextPageOptions_def initialBatchState_def flushBatch_def finalFlush_def
        alwaysContinue_def onPageBatch_fill onPageBatch_short Let_def batchOptions_def)
     auto

lemma queryBatch_pages_200_150:
  fixes p1 p2 :: "'a list"
  assumes "length p1 = 200" and "length p2 = 150"
  shows "fst (queryBatch (Suc (Suc fuel)) (stub [resultsPage p1 1 350, resultsPage p2 201 350])
            batchOptions (Some 75)
            alwaysContinue 0 ()) =
           Some (Inr \<lparr> br_totalProcessed = 350, br_totalBatches = 5, br_completed = True \<rparr>) \<and>
         map (\<lambda>(batch, info, answer). (batch, bi_batchNumber info))
           (b_calls (s_callback (snd (queryBatch (Suc (Suc fuel))
            (stub [resultsPage p1 1 350, resultsPage p2 201 350])
            batchOptions (Some 75)
            alwaysContinue 0 ())))) =
           [(take 75 p1, 1), (take 75 (drop 75 p1), 2), (drop 150 p1 @ take 25 p2, 3),
            (take 75 (drop 25 p2), 4), (drop 100 p2, 5)]"
proof -
  have "take 75 (drop 75 p1) @ drop 150 p1 = drop 75 p1"
    using append_take_drop_id[of 75 "drop 75 p1"] by simp
  then have e1: "take 75 p1 @ take 75 (drop 75 p1) @ drop 150 p1 = p1" by simp
  have "take 75 (drop 25 p2) @ drop 100 p2 = drop 25 p2"
    using append_take_drop_id[of 75 "drop 25 p2"] by simp
  then have e2: "take 25 p2 @ take 75 (drop 25 p2) @ drop 100 p2 = p2" by simp
  have "length (take 75 p1) = 75" "length (take 75 (drop 75 p1)) = 75" "length (drop 150 p1) = 50"
    "length (take 25 p2) = 25" "length (take 75 (drop 25 p2)) = 75" "length (drop 100 p2) = 50"
    using assms by simp_all
  from queryBatch_two_pages[OF this, of fuel] show ?thesis
    unfolding e1 e2 .
qed

text \<open>
  C7. With a batch size of at least 1, in every run of \<open>queryBatch\<close> (whatever the
  callback answers) the \<open>k\<close>-th call of the batch callback, counted from 0, carries batch
  number \<open>k + 1\<close> and its own size, holds between 1 and \<open>batchSize\<close> records, and holds
  exactly \<open>batchSize\<close> records unless it is the last call. For two pages of 200 and 150
  records, batch size 75 and a callback that always continues, the batches have sizes
  75, 75, 75, 75, 50 and numbers 1 to 5, they are the records of the two pages in order,
  and the result is 350 processed in 5 batches.
\<close>

theorem queryBatch_batches:
  fixes fetch :: "('w, 'a) fetcher" and onBatch :: "('u, 'a) batchCallback" and p1 p2 :: "'r list"
  shows
  "(1 \<le> defaultBatchSize options batchSize \<and>
    queryBatch fuel fetch options batchSize onBatch w u = (out, st) \<and>
    k < length (b_calls (s_callback st)) \<and>
    b_calls (s_callback st) ! k = (batch, info, answer) \<longrightarrow>
      bi_batchNumber info = int k + 1 \<and> bi_batchSize info = int (length batch) \<and>
      1 \<le> length batch \<and> int (length batch) \<le> defaultBatchSize options batchSize \<and>
      (Suc k < length (b_calls (s_callback st)) \<longrightarrow>
         int (length batch) = defaultBatchSize options batchSize)) \<and>
   (length p1 = 200 \<and> length p2 = 150 \<longrightarrow>
      map (\<lambda>(batch, info, answer). (length batch, bi_batchNumber info))
        (b_calls (s_callback (snd (queryBatch (Suc (Suc n))
           (stub [resultsPage p1 1 350, resultsPage p2 201 350])
           batchOptions (Some 75)
           alwaysContinue 0 ())))) = [(75, 1), (75, 2), (75, 3), (75, 4), (50, 5)] \<and>
      concat (map fst
        (b_calls (s_callback (snd (queryBatch (Suc (Suc n))
           (stub [resultsPage p1 1 350, resultsPage p2 201 350])
           batchOptions (Some 75)
           alwaysContinue 0 ()))))) = p1 @ p2 \<and>
      fst (queryBatch (Suc (Suc n)) (stub [resultsPage p1 1 350, resultsPage p2 201 350])
           batchOptions (Some 75)
           alwaysContinue 0 ()) =
        Some (Inr \<lparr> br_totalProcessed = 350, br_totalBatches = 5, br_completed = True \<rparr>))"
proof (intro conjI impI)
  let ?bsz = "defaultBatchSize options batchSize"
  assume a: "1 \<le> ?bsz \<and>
    queryBatch fuel fetch options batchSize onBatch w u = (out, st) \<and>
    k < length (b_calls (s_callback st)) \<and>
    b_calls (s_callback st) ! k = (batch, info, answer)"
  then have pos: "1 \<le> ?bsz" and run: "queryBatch fuel fetch options batchSize onBatch w u = (out, st)"
    and k: "k < length (b_calls (s_callback st))"
    and nth: "b_calls (s_callback st) ! k = (batch, info, answer)" by simp_all
  obtain out1 st1 where stream:
    "queryStream fuel fetch options (onPageBatch ?bsz onBatch) w (initialBatchState u) = (out1, st1)"
    by (cases "queryStream fuel fetch options (onPageBatch ?bsz onBatch) w (initialBatchState u)")
  have inv: "batchInv ?bsz (s_callback st1)"
  proof (rule queryStream_callback[OF stream, where J = "\<lambda>b n. batchInv ?bsz b"])
    show "batchInv ?bsz (initialBatchState u)"
      using pos by (simp add: batchInv_def initialBatchState_def wellNumbered_def)
  qed (rule onPageBatch_batchInv[OF pos])
  have "\<exists>final. b_calls (s_callback st) = b_calls (s_callback st1) @ final \<and>
           (final = [] \<or>
            (\<exists>batch info answer. final = [(batch, info, answer)] \<and> 1 \<le> length batch \<and>
               int (length batch) < ?bsz \<and>
               bi_batchNumber info = int (length (b_calls (s_callback st1))) + 1 \<and>
               bi_batchSize info = int (length batch)))"
  proof (cases out1)
    case None
    with run stream show ?thesis by (auto simp: queryBatch_def Let_def)
  next
    case (Some res)
    show ?thesis
    proof (cases res)
      case (Inl e)
      with Some run stream show ?thesis by (auto simp: queryBatch_def Let_def)
    next
      case (Inr sr)
      obtain r b where ff: "finalFlush onBatch sr (s_callback st1) = (r, b)"
        by (cases "finalFlush onBatch sr (s_callback st1)")
      with Some Inr run stream have "st = st1\<lparr> s_callback := b \<rparr>"
        by (simp add: queryBatch_def Let_def)
      with finalFlush_calls[OF ff inv] show ?thesis by auto
    qed
  qed
  then obtain final where calls: "b_calls (s_callback st) = b_calls (s_callback st1) @ final"
    and final: "final = [] \<or>
            (\<exists>batch info answer. final = [(batch, info, answer)] \<and> 1 \<le> length batch \<and>
               int (length batch) < ?bsz \<and>
               bi_batchNumber info = int (length (b_calls (s_callback st1))) + 1 \<and>
               bi_batchSize info = int (length batch))"
    by blast
  from inv have wn: "wellNumbered ?bsz (b_calls (s_callback st1))" by (simp add: batchInv_def)
  have "bi_batchNumber info = int k + 1 \<and> bi_batchSize info = int (length batch) \<and>
      1 \<le> length batch \<and> int (length batch) \<le> ?bsz \<and>
      (Suc k < length (b_calls (s_callback st)) \<longrightarrow> int (length batch) = ?bsz)"
  proof (cases "k < length (b_calls (s_callback st1))")
    case True
    with nth calls have "b_calls (s_callback st1) ! k = (batch, info, answer)"
      by (simp add: nth_append)
    with wn True pos show ?thesis by (auto simp: wellNumbered_def)
  next
    case False
    with k calls final nth show ?thesis by (auto simp: nth_append)
  qed
  then show "bi_batchNumber info = int k + 1" "bi_batchSize info = int (length batch)"
    "1 \<le> length batch" "int (length batch) \<le> ?bsz"
    "Suc k < length (b_calls (s_callback st)) \<Longrightarrow> int (length batch) = ?bsz"
    by simp_all
next
  let ?calls = "b_calls (s_callback (snd (queryBatch (Suc (Suc n))
           (stub [resultsPage p1 1 350, resultsPage p2 201 350])
           batchOptions (Some 75)
           alwaysContinue 0 ())))"
  assume "length p1 = 200 \<and> length p2 = 150"
  then have len: "length p1 = 200" "length p2 = 150" by simp_all
  note run = queryBatch_pages_200_150[OF len, of n]
  from run have calls: "map (\<lambda>(batch, info, answer). (batch, bi_batchNumber info)) ?calls =
      [(take 75 p1, 1), (take 75 (drop 75 p1), 2), (drop 150 p1 @ take 25 p2, 3),
       (take 75 (drop 25 p2), 4), (drop 100 p2, 5)]" by simp
  have "map (\<lambda>(batch, info, answer). (length batch, bi_batchNumber info)) ?calls =
      map (\<lambda>(batch, number). (length batch, number))
        (map (\<lambda>(batch, info, answer). (batch, bi_batchNumber info)) ?calls)"
    by (simp add: case_prod_unfold comp_def)
  with calls len
  show "map (\<lambda>(batch, info, answer). (length batch, bi_batchNumber info)) ?calls =
      [(75, 1), (75, 2), (75, 3), (75, 4), (50, 5)]" by simp
  have "map fst ?calls = map fst (map (\<lambda>(batch, info, answer). (batch, bi_batchNumber info)) ?calls)"
    by (simp add: case_prod_unfold comp_def)
  with calls have "concat (map fst ?calls) =
      take 75 p1 @ take 75 (drop 75 p1) @ drop 150 p1 @ take 25 p2 @ take 75 (drop 25 p2) @ drop 100 p2"
    by simp
  also have "\<dots> = (take 75 p1 @ take 75 (drop 75 p1) @ drop 150 p1) @
                    (take 25 p2 @ take 75 (drop 25 p2) @ drop 100 p2)" by simp
  also have "take 75 p1 @ take 75 (drop 75 p1) @ drop 150 p1 = p1"
    using append_take_drop_id[of 75 "drop 75 p1"] by simp
  also have "take 25 p2 @ take 75 (drop 25 p2) @ drop 100 p2 = p2"
    using append_take_drop_id[of 75 "drop 25 p2"] by simp
  finally show "concat (map fst ?calls) = p1 @ p2" .
  from run show "fst (queryBatch (Suc (Suc n)) (stub [resultsPage p1 1 350, resultsPage p2 201 350])
           batchOptions (Some 75)
           alwaysContinue 0 ()) =
        Some (Inr \<lparr> br_totalProcessed = 350, br_totalBatches = 5, br_completed = True \<rparr>)" by simp
qed


theorem queryBatch_batches_witness:
  "1 \<le> defaultBatchSize batchOptions (Some 75) \<and>
   length [1..<201::nat] = 200 \<and> length [201..<351::nat] = 150 \<and>
   length (b_calls (s_callback (snd (queryBatch (Suc (Suc 0))
      (stub [resultsPage [1..<201] 1 350, resultsPage [201..<351] 201 350])
      batchOptions (Some 75) alwaysContinue 0 ())))) = 5 \<and>
   bi_batchNumber (fst (snd (b_calls (s_callback (snd (queryBatch (Suc (Suc 0))
      (stub [resultsPage [1..<201] 1 350, resultsPage [201..<351] 201 350])
      batchOptions (Some 75) alwaysContinue 0 ()))) ! 4))) = 5 \<and>
   1 \<le> length (fst (b_calls (s_callback (snd (queryBatch (Suc (Suc 0))
      (stub [resultsPage [1..<201] 1 350, resultsPage [201..<351] 201 350])
      batchOptions (Some 75) alwaysContinue 0 ()))) ! 4)) \<and>
   int (length (fst (b_calls (s_callback (snd (queryBatch (Suc (Suc 0))
      (stub [resultsPage [1..<201] 1 350, resultsPage [201..<351] 201 350])
      batchOptions (Some 75) alwaysContinue 0 ()))) ! 4))) \<le> 75 \<and>
   fst (queryBatch (Suc (Suc 0))
      (stub [resultsPage [1..<201] 1 350, resultsPage [201..<351] 201 350])
      batchOptions (Some 75) alwaysContinue 0 ()) =
     Some (Inr \<lparr> br_totalProcessed = 350, br_totalBatches = 5, br_completed = True \<rparr>)"
proof -
  let ?run = "queryBatch (Suc (Suc 0))
      (stub [resultsPage [1..<201::nat] 1 350, resultsPage [201..<351] 201 350])
      batchOptions (Some 75) alwaysContinue 0 ()"
  let ?calls = "b_calls (s_callback (snd ?run))"
  have bs: "1 \<le> defaultBatchSize batchOptions (Some 75)" "defaultBatchSize batchOptions (Some 75) = 75"
    by (simp_all add: defaultBatchSize_def)
  have len: "length [1..<201::nat] = 200 \<and> length [201..<351::nat] = 150" by simp
  note inst = queryBatch_batches[where options = batchOptions and batchSize = "Some 75"
      and fuel = "Suc (Suc 0)"
      and fetch = "stub [resultsPage [1..<201::nat] 1 350, resultsPage [201..<351] 201 350]"
      and onBatch = alwaysContinue and w = 0 and u = "()" and out = "fst ?run" and st = "snd ?run"
      and k = 4 and batch = "fst (?calls ! 4)" and info = "fst (snd (?calls ! 4))"
      and answer = "snd (snd (?calls ! 4))"
      and ?p1.0 = "[1..<201::nat]" and ?p2.0 = "[201..<351::nat]" and n = 0]
  from inst len have ex:
    "map (\<lambda>(batch, info, answer). (length batch, bi_batchNumber info)) ?calls =
       [(75, 1), (75, 2), (75, 3), (75, 4), (50, 5)]"
    "fst ?run = Some (Inr \<lparr> br_totalProcessed = 350, br_totalBatches = 5, br_completed = True \<rparr>)"
    by blast+
  from arg_cong[OF ex(1), of length] have n: "length ?calls = 5" by simp
  have k: "4 < length ?calls" using n by simp
  from inst bs(1) k have
    "bi_batchNumber (fst (snd (?calls ! 4))) = int 4 + 1 \<and>
     1 \<le> length (fst (?calls ! 4)) \<and>
     int (length (fst (?calls ! 4))) \<le> defaultBatchSize batchOptions (Some 75)"
    by simp
  with bs len n ex(2) show ?thesis by simp
qed

subsection \<open>Stopping the stream\<close>

lemma deliverPage_refusal:
  assumes "\<not> list_ex is_refusal (s_events st)"
  shows "(\<exists>st1. deliverPage opts onPage result st = Continue st1 \<and>
            \<not> list_ex is_refusal (s_events st1)) \<or>
         (\<exists>r st1. deliverPage opts onPage result st = Return r st1 \<and> sr_completed r \<and>
            \<not> list_ex is_refusal (s_events st1)) \<or>
         (\<exists>st1 recs info. deliverPage opts onPage result st =
              Return \<lparr> sr_totalProcessed = s_totalProcessed st1, sr_completed = False \<rparr> st1 \<and>
            s_events st1 = s_events st @ [PageCall recs info False])"
  using assms
  by (cases rule: deliverPage_cases[of opts onPage result st]) auto

lemma processPages_refusal:
  assumes "processPages fuel fetch onPage opts ps result st = (out, st')"
    and "\<not> list_ex is_refusal (s_events st)"
  shows "(\<not> list_ex is_refusal (s_events st') \<and>
          (\<forall>sr. out = Some (Inr sr) \<longrightarrow> sr_completed sr)) \<or>
         (\<exists>pre recs info. s_events st' = pre @ [PageCall recs info False] \<and>
            \<not> list_ex is_refusal pre \<and>
            out = Some (Inr \<lparr> sr_totalProcessed = s_totalProcessed st', sr_completed = False \<rparr>))"
  using assms
proof (induction fuel arbitrary: result st)
  case 0
  then show ?case by simp
next
  case (Suc fuel)
  note d = deliverPage_refusal[OF Suc.prems(2), of opts onPage result]
  from Suc.prems(1) show ?case
  proof (cases rule: processPages_Suc_cases)
    case (early r)
    with d Suc.prems(2) show ?thesis by auto
  next
    case last
    with d Suc.prems(2) show ?thesis by auto
  next
    case (failed st1 e w)
    with d Suc.prems(2) show ?thesis by auto
  next
    case (more st1 nextResult w)
    with d have "\<not> list_ex is_refusal (s_events (st1\<lparr> s_world := w,
                s_events := s_events st1 @ [Fetch (nextPageOptions opts ps result) (Inr nextResult)] \<rparr>))"
      by auto
    from Suc.IH[OF more(6) this] show ?thesis .
  qed
qed

lemma queryStream_three_pages:
  assumes "p1 \<noteq> []" and "p2 \<noteq> []"
  shows "queryStream (Suc (Suc n))
           (stub [resultsPage p1 1 1000, resultsPage p2 101 1000, resultsPage p3 201 1000])
           streamOptions collectPages 0 [] =
         (Some (Inr \<lparr> sr_totalProcessed = int (length p1) + int (length p2), sr_completed = False \<rparr>),
          \<lparr> s_world = 2, s_callback = [p1, p2],
            s_totalProcessed = int (length p1) + int (length p2),
            s_events =
              [Fetch \<lparr> req_start = 1, req_pagesize = 100 \<rparr> (resultsPage p1 1 1000),
               PageCall p1 \<lparr> pi_startIndex = JNum 1, pi_pageSize = int (length p1),
                              pi_totalResultCount = JNum 1000,
                              pi_totalProcessed = int (length p1) \<rparr> True,
               Fetch \<lparr> req_start = 101, req_pagesize = 100 \<rparr> (resultsPage p2 101 1000),
               PageCall p2 \<lparr> pi_startIndex = JNum 101, pi_pageSize = int (length p2),
                              pi_totalResultCount = JNum 1000,
                              pi_totalProcessed = int (length p1) + int (length p2) \<rparr> False] \<rparr>)"
  using assms
  by (simp add: queryStream_def stub_def resultsPage_def mockResults_def streamOptions_def merge_defaults_def
        optimalPageSize_def deliverPage_def limitedPageResults_def limitReached_def
        isValidPagination_def hasMoreData_def withinLimit_def nextPageOptions_def
        collectPages_def Let_def)

text \<open>
  C6. The events of \<open>queryStream\<close> are a sequence, one request or one callback at a time.
  When the page callback has answered false, that call is the last event of the run (no
  request follows it) and the only refusal; the stream resolves, not completed, and its
  \<open>totalProcessed\<close> is the number of records handed to the callback up to and with that
  page. With the stub of the test (pages \<open>p1\<close>, \<open>p2\<close>, \<open>p3\<close>, the first two not empty)
  and its callback, the run makes exactly two requests, hands over \<open>p1\<close> and \<open>p2\<close>, and
  reports the sum of their sizes.
\<close>

theorem queryStream_stops_on_false:
  fixes fetch :: "('w, 'a) fetcher" and onPage :: "('c, 'a) pageCallback" and p1 p2 p3 :: "'r list"
  shows
  "(queryStream fuel fetch options onPage w c = (out, st) \<and>
    PageCall recs info False \<in> set (s_events st) \<longrightarrow>
      last (s_events st) = PageCall recs info False \<and>
      \<not> list_ex is_refusal (butlast (s_events st)) \<and>
      out = Some (Inr \<lparr> sr_totalProcessed = delivered (s_events st), sr_completed = False \<rparr>)) \<and>
   (p1 \<noteq> [] \<and> p2 \<noteq> [] \<longrightarrow>
      fst (queryStream (Suc (Suc n))
             (stub [resultsPage p1 1 1000, resultsPage p2 101 1000, resultsPage p3 201 1000])
             streamOptions collectPages 0 []) =
        Some (Inr \<lparr> sr_totalProcessed = int (length p1) + int (length p2),
                     sr_completed = False \<rparr>) \<and>
      length (fetches (s_events (snd (queryStream (Suc (Suc n))
             (stub [resultsPage p1 1 1000, resultsPage p2 101 1000, resultsPage p3 201 1000])
             streamOptions collectPages 0 [])))) = 2 \<and>
      s_callback (snd (queryStream (Suc (Suc n))
             (stub [resultsPage p1 1 1000, resultsPage p2 101 1000, resultsPage p3 201 1000])
             streamOptions collectPages 0 [])) = [p1, p2])"
proof (intro conjI impI)
  assume a: "queryStream fuel fetch options onPage w c = (out, st) \<and>
    PageCall recs info False \<in> set (s_events st)"
  then have run: "queryStream fuel fetch options onPage w c = (out, st)"
    and ev: "PageCall recs info False \<in> set (s_events st)" by simp_all
  have "(\<not> list_ex is_refusal (s_events st) \<and> (\<forall>sr. out = Some (Inr sr) \<longrightarrow> sr_completed sr)) \<or>
         (\<exists>pre recs info. s_events st = pre @ [PageCall recs info False] \<and>
            \<not> list_ex is_refusal pre \<and>
            out = Some (Inr \<lparr> sr_totalProcessed = s_totalProcessed st, sr_completed = False \<rparr>))"
    using run
  proof (cases rule: queryStream_cases)
    case (failed e w1)
    then show ?thesis by simp
  next
    case (first result w1)
    show ?thesis by (rule processPages_refusal[OF first(2)]) simp
  qed
  moreover have "list_ex is_refusal (s_events st)"
    using ev by (auto simp: list_ex_iff intro!: bexI[of _ "PageCall recs info False"])
  ultimately obtain pre recs' info' where
    evs: "s_events st = pre @ [PageCall recs' info' False]" and pre: "\<not> list_ex is_refusal pre"
    and out: "out = Some (Inr \<lparr> sr_totalProcessed = s_totalProcessed st, sr_completed = False \<rparr>)"
    by blast
  from ev evs pre have "PageCall recs info False = PageCall recs' info' False"
    by (auto simp: list_ex_iff)
  with evs pre out queryStream_delivered[OF run]
  show "last (s_events st) = PageCall recs info False"
    "\<not> list_ex is_refusal (butlast (s_events st))"
    "out = Some (Inr \<lparr> sr_totalProcessed = delivered (s_events st), sr_completed = False \<rparr>)"
    by simp_all
next
  assume "p1 \<noteq> [] \<and> p2 \<noteq> []"
  then have ne: "p1 \<noteq> []" "p2 \<noteq> []" by simp_all
  note run = queryStream_three_pages[OF ne, of n p3]
  show "fst (queryStream (Suc (Suc n))
             (stub [resultsPage p1 1 1000, resultsPage p2 101 1000, resultsPage p3 201 1000])
             streamOptions collectPages 0 []) =
        Some (Inr \<lparr> sr_totalProcessed = int (length p1) + int (length p2),
                     sr_completed = False \<rparr>)"
    "length (fetches (s_events (snd (queryStream (Suc (Suc n))
             (stub [resultsPage p1 1 1000, resultsPage p2 101 1000, resultsPage p3 201 1000])
             streamOptions collectPages 0 [])))) = 2"
    "s_callback (snd (queryStream (Suc (Suc n))
             (stub [resultsPage p1 1 1000, resultsPage p2 101 1000, resultsPage p3 201 1000])
             streamOptions collectPages 0 [])) = [p1, p2]"
    unfolding run by (simp_all add: fetches_def)
qed


theorem queryStream_stops_on_false_witness:
  "PageCall [101..<201::nat]
      \<lparr> pi_startIndex = JNum 101, pi_pageSize = 100, pi_totalResultCount = JNum 1000,
        pi_totalProcessed = 200 \<rparr> False
     \<in> set (s_events (snd (queryStream (Suc (Suc 0))
           (stub [resultsPage [1..<101] 1 1000, resultsPage [101..<201] 101 1000,
                  resultsPage [201..<301] 201 1000])
           streamOptions collectPages 0 []))) \<and>
   [1..<101::nat] \<noteq> [] \<and> [101..<201::nat] \<noteq> [] \<and>
   fst (queryStream (Suc (Suc 0))
           (stub [resultsPage [1..<101::nat] 1 1000, resultsPage [101..<201] 101 1000,
                  resultsPage [201..<301] 201 1000])
           streamOptions collectPages 0 []) =
     Some (Inr \<lparr> sr_totalProcessed = 200, sr_completed = False \<rparr>) \<and>
   length (fetches (s_events (snd (queryStream (Suc (Suc 0))
           (stub [resultsPage [1..<101::nat] 1 1000, resultsPage [101..<201] 101 1000,
                  resultsPage [201..<301] 201 1000])
           streamOptions collectPages 0 [])))) = 2 \<and>
   delivered (s_events (snd (queryStream (Suc (Suc 0))
           (stub [resultsPage [1..<101::nat] 1 1000, resultsPage [101..<201] 101 1000,
                  resultsPage [201..<301] 201 1000])
           streamOptions collectPages 0 []))) = 200"
proof -
  let ?run = "queryStream (Suc (Suc 0))
           (stub [resultsPage [1..<101::nat] 1 1000, resultsPage [101..<201] 101 1000,
                  resultsPage [201..<301] 201 1000])
           streamOptions collectPages 0 []"
  let ?call = "PageCall [101..<201::nat]
      \<lparr> pi_startIndex = JNum 101, pi_pageSize = 100, pi_totalResultCount = JNum 1000,
        pi_totalProcessed = 200 \<rparr> False"
  have ne: "[1..<101::nat] \<noteq> [] \<and> [101..<201::nat] \<noteq> []" by simp
  have l: "length [1..<101::nat] = 100" "length [101..<201::nat] = 100" by simp_all
  have h: "?call \<in> set (s_events (snd ?run))"
    using queryStream_three_pages[of "[1..<101::nat]" "[101..<201]" 0 "[201..<301]"] ne
    by (simp only: snd_conv sstate.simps l list.set insert_iff) simp
  note inst = queryStream_stops_on_false[where fuel = "Suc (Suc 0)"
      and fetch = "stub [resultsPage [1..<101::nat] 1 1000, resultsPage [101..<201] 101 1000,
                  resultsPage [201..<301] 201 1000]"
      and options = streamOptions and onPage = collectPages and w = 0 and c = "[]"
      and out = "fst ?run" and st = "snd ?run" and recs = "[101..<201]"
      and info = "\<lparr> pi_startIndex = JNum 101, pi_pageSize = 100, pi_totalResultCount = JNum 1000,
        pi_totalProcessed = 200 \<rparr>"
      and ?p1.0 = "[1..<101::nat]" and ?p2.0 = "[101..<201::nat]" and ?p3.0 = "[201..<301::nat]"
      and n = 0]
  from inst ne have two:
    "fst ?run = Some (Inr \<lparr> sr_totalProcessed = int (length [1..<101::nat]) + int (length [101..<201::nat]),
                     sr_completed = False \<rparr>)"
    "length (fetches (s_events (snd ?run))) = 2"
    by blast+
  from inst h have "fst ?run =
      Some (Inr \<lparr> sr_totalProcessed = delivered (s_events (snd ?run)), sr_completed = False \<rparr>)"
    by simp
  with two(1) have d: "delivered (s_events (snd ?run)) = 200" by (simp add: l)
  from two l have f: "fst ?run = Some (Inr \<lparr> sr_totalProcessed = 200, sr_completed = False \<rparr>)"
    by simp
  from h ne f two(2) d show ?thesis by blast
qed

subsection \<open>When a next page is fetched\<close>

lemma fetchNext_conditions:
  assumes "isValidPagination opts result" and "hasMoreData opts result"
  shows "\<exists>s t. env_StartIndex result = JNum s \<and> s \<noteq> 0 \<and> 0 < m_pageSize opts \<and>
           env_TotalResultCount result = JNum t \<and> s + m_pageSize opts \<le> t"
  using assms
  by (cases "env_StartIndex result"; cases "env_TotalResultCount result")
     (simp_all add: isValidPagination_def hasMoreData_def)

lemma withinLimit_conditions:
  "withinLimit opts n \<Longrightarrow> m_limit opts = None \<or> (\<exists>l. m_limit opts = Some l \<and> n < l)"
  by (simp add: withinLimit_def split: option.splits)

lemma malformed_not_valid:
  "\<not> is_number (env_StartIndex result) \<or> \<not> is_number (env_TotalResultCount result) \<Longrightarrow>
     \<not> isValidPagination opts result"
  by (auto simp: isValidPagination_def)

lemma appendPage_results:
  "appendPage opts result st = Return r st1 \<or> appendPage opts result st = Continue st1 \<Longrightarrow>
     \<exists>n. q_results st1 = q_results st @ take n (pageRecords result)"
proof (cases "env_Results result")
  case None
  assume "appendPage opts result st = Return r st1 \<or> appendPage opts result st = Continue st1"
  with None have "q_results st1 = q_results st @ take 0 (pageRecords result)"
    by (auto simp: appendPage_def)
  then show ?thesis ..
next
  case (Some pageResults)
  assume a: "appendPage opts result st = Return r st1 \<or> appendPage opts result st = Continue st1"
  from Some have pr: "pageRecords result = pageResults" by (simp add: pageRecords_def)
  from a Some have "q_results st1 = q_results st @ take 0 pageResults \<or>
      q_results st1 = q_results st @ take (length pageResults) pageResults \<or>
      (\<exists>l. q_results st1 = q_results st @ take (nat (l - q_totalFetched st)) pageResults)"
    by (auto simp: appendPage_def Let_def split: option.splits if_splits)
  then show ?thesis unfolding pr by blast
qed

lemma query_step_guard:
  assumes "loadRemainingPages (Suc fuel) fetch opts ps result st = (out, st')"
    and "fetches (q_events st') \<noteq> fetches (q_events st)"
  shows "\<exists>s t st1. appendPage opts result st = Continue st1 \<and>
           env_StartIndex result = JNum s \<and> s \<noteq> 0 \<and> 0 < m_pageSize opts \<and>
           env_TotalResultCount result = JNum t \<and> s + m_pageSize opts \<le> t \<and>
           (m_limit opts = None \<or> (\<exists>l. m_limit opts = Some l \<and> q_totalFetched st1 < l))"
  using assms(1)
proof (cases rule: loadRemainingPages_Suc_cases)
  case (early r)
  with assms(2) appendPage_Return[OF early(1)] show ?thesis by simp
next
  case last
  with assms(2) appendPage_Continue[OF last(1)] show ?thesis by simp
next
  case (failed st1 e w)
  from fetchNext_conditions[OF failed(2,3)] withinLimit_conditions[OF failed(4)] failed(1)
  show ?thesis by blast
next
  case (more st1 nextResult w)
  from fetchNext_conditions[OF more(2,3)] withinLimit_conditions[OF more(4)] more(1)
  show ?thesis by blast
qed

lemma fetches_snoc_PageCall: "fetches (evs @ [PageCall recs info b]) = fetches evs"
  by (simp add: fetches_def)

lemma deliverPage_fetches:
  "deliverPage opts onPage result st = Return r st1 \<or>
   deliverPage opts onPage result st = Continue st1 \<Longrightarrow>
     fetches (s_events st1) = fetches (s_events st)"
  using deliverPage_events[of opts onPage result st r st1]
  by (auto simp: fetches_snoc_PageCall)

lemma stream_step_guard:
  assumes "processPages (Suc fuel) fetch onPage opts ps result st = (out, st')"
    and "fetches (s_events st') \<noteq> fetches (s_events st)"
  shows "\<exists>s t st1. deliverPage opts onPage result st = Continue st1 \<and>
           env_StartIndex result = JNum s \<and> s \<noteq> 0 \<and> 0 < m_pageSize opts \<and>
           env_TotalResultCount result = JNum t \<and> s + m_pageSize opts \<le> t \<and>
           (m_limit opts = None \<or> (\<exists>l. m_limit opts = Some l \<and> s_totalProcessed st1 < l))"
  using assms(1)
proof (cases rule: processPages_Suc_cases)
  case (early r)
  with assms(2) deliverPage_fetches[of opts onPage result st r st'] show ?thesis by simp
next
  case last
  with assms(2) deliverPage_fetches[of opts onPage result st undefined st'] show ?thesis by simp
next
  case (failed st1 e w)
  from fetchNext_conditions[OF failed(2,3)] withinLimit_conditions[OF failed(4)] failed(1)
  show ?thesis by blast
next
  case (more st1 nextResult w)
  from fetchNext_conditions[OF more(2,3)] withinLimit_conditions[OF more(4)] more(1)
  show ?thesis by blast
qed

lemma query_step_malformed:
  assumes "\<not> is_number (env_StartIndex result) \<or> \<not> is_number (env_TotalResultCount result)"
    and "loadRemainingPages (Suc fuel) fetch opts ps result st = (out, st')"
  shows "q_events st' = q_events st \<and>
         (\<exists>r n. out = Some (Inr r) \<and> env_Results r = Some (q_results st') \<and>
            q_results st' = q_results st @ take n (pageRecords result))"
  using assms(2)
proof (cases rule: loadRemainingPages_Suc_cases)
  case (early r)
  with appendPage_Return[OF early(1)] appendPage_results[of opts result st r st']
  show ?thesis by (auto simp: finalResult_def)
next
  case last
  with appendPage_Continue[OF last(1)] appendPage_results[of opts result st undefined st']
  show ?thesis by (auto simp: finalResult_def)
next
  case (failed st1 e w)
  with malformed_not_valid[OF assms(1)] show ?thesis by simp
next
  case (more st1 nextResult w)
  with malformed_not_valid[OF assms(1)] show ?thesis by simp
qed

lemma stream_step_malformed:
  assumes "\<not> is_number (env_StartIndex result) \<or> \<not> is_number (env_TotalResultCount result)"
    and "processPages (Suc fuel) fetch onPage opts ps result st = (out, st')"
  shows "fetches (s_events st') = fetches (s_events st) \<and>
         (\<exists>sr. out = Some (Inr sr) \<and> sr_totalProcessed sr = s_totalProcessed st')"
  using assms(2)
proof (cases rule: processPages_Suc_cases)
  case (early r)
  with deliverPage_fetches[of opts onPage result st r st'] deliverPage_Return_total[OF early(1)]
  show ?thesis by simp
next
  case last
  with deliverPage_fetches[of opts onPage result st undefined st'] show ?thesis by simp
next
  case (failed st1 e w)
  with malformed_not_valid[OF assms(1)] show ?thesis by simp
next
  case (more st1 nextResult w)
  with malformed_not_valid[OF assms(1)] show ?thesis by simp
qed

lemma query_first_malformed:
  assumes "fetch w (firstRequest options) = (Inr result, w1)"
    and "\<not> is_number (env_StartIndex result) \<or> \<not> is_number (env_TotalResultCount result)"
  shows "\<exists>r st n. query (Suc fuel) fetch options w = (Some (Inr r), st) \<and>
           q_events st = [Fetch (firstRequest options) (Inr result)] \<and>
           env_Results r = Some (q_results st) \<and> q_results st = take n (pageRecords result)"
proof -
  obtain out st where run: "query (Suc fuel) fetch options w = (out, st)"
    by (cases "query (Suc fuel) fetch options w")
  from run show ?thesis
  proof (cases rule: query_cases)
    case (failed e w2)
    with assms(1) show ?thesis by (simp add: firstRequest_def)
  next
    case (first result2 w2)
    with assms(1) have eq: "result2 = result" "w2 = w1" by (simp_all add: firstRequest_def)
    from query_step_malformed[OF assms(2) first(2)[unfolded eq]] run
    show ?thesis by (auto simp: firstRequest_def)
  qed
qed

lemma queryStream_first_malformed:
  assumes "fetch w (firstRequest options) = (Inr result, w1)"
    and "\<not> is_number (env_StartIndex result) \<or> \<not> is_number (env_TotalResultCount result)"
  shows "\<exists>sr st. queryStream (Suc fuel) fetch options onPage w c = (Some (Inr sr), st) \<and>
           fetches (s_events st) = [Fetch (firstRequest options) (Inr result)] \<and>
           sr_totalProcessed sr = delivered (s_events st)"
proof -
  obtain out st where run: "queryStream (Suc fuel) fetch options onPage w c = (out, st)"
    by (cases "queryStream (Suc fuel) fetch options onPage w c")
  from run show ?thesis
  proof (cases rule: queryStream_cases)
    case (failed e w2)
    with assms(1) show ?thesis by (simp add: firstRequest_def)
  next
    case (first result2 w2)
    with assms(1) have eq: "result2 = result" "w2 = w1" by (simp_all add: firstRequest_def)
    from stream_step_malformed[OF assms(2) first(2)[unfolded eq]] run
      queryStream_delivered[OF run]
    show ?thesis by (auto simp: firstRequest_def fetches_def)
  qed
qed

text \<open>
  C2, as the code has it. In a step of \<open>loadRemainingPages\<close> and of \<open>processPages\<close>
  a request for a next page is issued only if the page did not end the run and the
  envelope's start index is a number other than 0, the requested page size is positive,
  the total result count is a number, start index plus requested page size is at most the
  total, and there is no limit or the count is below it. An envelope whose start index or
  total result count is not a number issues no request: the step resolves, the query with
  the records accumulated so far and a prefix of this page, the stream with its count. When
  the first response is such an envelope, \<open>query\<close> and \<open>queryStream\<close> resolve after
  exactly one request.
\<close>

theorem pagination_guard:
  fixes fetch :: "('w, 'a) fetcher" and onPage :: "('c, 'a) pageCallback"
    and st st' :: "('w, 'a) qstate" and ss ss' :: "('w, 'c, 'a) sstate"
  shows
  "(loadRemainingPages (Suc fuel) fetch opts ps result st = (out, st') \<and>
    fetches (q_events st') \<noteq> fetches (q_events st) \<longrightarrow>
      (\<exists>s t st1. appendPage opts result st = Continue st1 \<and>
         env_StartIndex result = JNum s \<and> s \<noteq> 0 \<and> 0 < m_pageSize opts \<and>
         env_TotalResultCount result = JNum t \<and> s + m_pageSize opts \<le> t \<and>
         (m_limit opts = None \<or> (\<exists>l. m_limit opts = Some l \<and> q_totalFetched st1 < l)))) \<and>
   (processPages (Suc fuel) fetch onPage opts ps result ss = (sout, ss') \<and>
    fetches (s_events ss') \<noteq> fetches (s_events ss) \<longrightarrow>
      (\<exists>s t ss1. deliverPage opts onPage result ss = Continue ss1 \<and>
         env_StartIndex result = JNum s \<and> s \<noteq> 0 \<and> 0 < m_pageSize opts \<and>
         env_TotalResultCount result = JNum t \<and> s + m_pageSize opts \<le> t \<and>
         (m_limit opts = None \<or> (\<exists>l. m_limit opts = Some l \<and> s_totalProcessed ss1 < l)))) \<and>
   ((\<not> is_number (env_StartIndex result) \<or> \<not> is_number (env_TotalResultCount result)) \<and>
    loadRemainingPages (Suc fuel) fetch opts ps result st = (out, st') \<longrightarrow>
      q_events st' = q_events st \<and>
      (\<exists>r n. out = Some (Inr r) \<and> env_Results r = Some (q_results st') \<and>
         q_results st' = q_results st @ take n (pageRecords result))) \<and>
   ((\<not> is_number (env_StartIndex result) \<or> \<not> is_number (env_TotalResultCount result)) \<and>
    processPages (Suc fuel) fetch onPage opts ps result ss = (sout, ss') \<longrightarrow>
      fetches (s_events ss') = fetches (s_events ss) \<and>
      (\<exists>sr. sout = Some (Inr sr) \<and> sr_totalProcessed sr = s_totalProcessed ss')) \<and>
   (fetch w (firstRequest options) = (Inr result, w1) \<and>
    (\<not> is_number (env_StartIndex result) \<or> \<not> is_number (env_TotalResultCount result)) \<longrightarrow>
      (\<exists>r st n. query (Suc fuel) fetch options w = (Some (Inr r), st) \<and>
         q_events st = [Fetch (firstRequest options) (Inr result)] \<and>
         env_Results r = Some (q_results st) \<and> q_results st = take n (pageRecords result)) \<and>
      (\<exists>sr st. queryStream (Suc fuel) fetch options onPage w c = (Some (Inr sr), st) \<and>
         fetches (s_events st) = [Fetch (firstRequest options) (Inr result)] \<and>
         sr_totalProcessed sr = delivered (s_events st)))"
  using query_step_guard[of fuel fetch opts ps result st out st']
    stream_step_guard[of fuel fetch onPage opts ps result ss sout ss']
    query_step_malformed[of result fuel fetch opts ps st out st']
    stream_step_malformed[of result fuel fetch onPage opts ps ss sout ss']
    query_first_malformed[of fetch w options result w1 fuel]
    queryStream_first_malformed[of fetch w options result w1 fuel onPage c]
  by blast


text \<open>
  C2 as stated asks for a positive start index. The code tests that the start index is
  truthy and a number: after an envelope with start index \<open>- 5\<close> (page size 10, total 100)
  the next page is requested, from \<open>5\<close>.
\<close>

theorem negative_start_index_continues:
  "q_events (snd (query (Suc (Suc 0))
      (stub [resultsPage [1::nat] (- 5) 100, resultsPage [2] 95 100])
      \<lparr> opt_start = None, opt_pageSize = Some 10, opt_limit = None \<rparr> 0)) =
     [Fetch \<lparr> req_start = 1, req_pagesize = 10 \<rparr> (resultsPage [1] (- 5) 100),
      Fetch \<lparr> req_start = 5, req_pagesize = 10 \<rparr> (resultsPage [2] 95 100)] \<and>
   env_StartIndex (mockResults [1::nat] (JNum (- 5)) (JNum 100)) = JNum (- 5) \<and>
   \<not> (0 < (- 5 :: int))"
  by code_simp

theorem pagination_guard_witness:
  "fetches (q_events (snd (loadRemainingPages (Suc (Suc 0)) (stub [resultsPage [2::nat] 95 100])
      guardOptions 10 (mockResults [1] (JNum 1) (JNum 100))
      \<lparr> q_world = 0, q_results = [], q_totalFetched = 0, q_events = [] \<rparr>))) \<noteq> fetches [] \<and>
   (\<exists>s t st1. appendPage guardOptions (mockResults [1::nat] (JNum 1) (JNum 100))
        \<lparr> q_world = 0::nat, q_results = [], q_totalFetched = 0, q_events = [] \<rparr> = Continue st1 \<and>
      env_StartIndex (mockResults [1::nat] (JNum 1) (JNum 100)) = JNum s \<and> s \<noteq> 0 \<and>
      0 < m_pageSize guardOptions \<and>
      env_TotalResultCount (mockResults [1::nat] (JNum 1) (JNum 100)) = JNum t \<and>
      s + m_pageSize guardOptions \<le> t \<and>
      (m_limit guardOptions = None \<or> (\<exists>l. m_limit guardOptions = Some l \<and> q_totalFetched st1 < l))) \<and>
   stub [Inr (mockResults [1::nat] JUndefined (JStr ''invalid''))] 0 (firstRequest malformedOptions) =
     (Inr (mockResults [1] JUndefined (JStr ''invalid'')), Suc 0) \<and>
   \<not> is_number (env_StartIndex (mockResults [1::nat] JUndefined (JStr ''invalid''))) \<and>
   (\<exists>r st n. query (Suc 0) (stub [Inr (mockResults [1::nat] JUndefined (JStr ''invalid''))])
        malformedOptions 0 = (Some (Inr r), st) \<and>
      q_events st = [Fetch (firstRequest malformedOptions)
                       (Inr (mockResults [1] JUndefined (JStr ''invalid'')))] \<and>
      env_Results r = Some (q_results st) \<and>
      q_results st = take n (pageRecords (mockResults [1] JUndefined (JStr ''invalid'')))) \<and>
   (\<exists>sr st. queryStream (Suc 0) (stub [Inr (mockResults [1::nat] JUndefined (JStr ''invalid''))])
        malformedOptions alwaysContinue 0 () = (Some (Inr sr), st) \<and>
      fetches (s_events st) = [Fetch (firstRequest malformedOptions)
                       (Inr (mockResults [1] JUndefined (JStr ''invalid'')))] \<and>
      sr_totalProcessed sr = delivered (s_events st))"
proof -
  let ?E1 = "mockResults [1::nat] (JNum 1) (JNum 100)"
  let ?st0 = "\<lparr> q_world = 0::nat, q_results = [] :: nat list, q_totalFetched = 0, q_events = [] \<rparr>"
  let ?run1 = "loadRemainingPages (Suc (Suc 0)) (stub [resultsPage [2::nat] 95 100])
      guardOptions 10 ?E1 ?st0"
  let ?E2 = "mockResults [1::nat] JUndefined (JStr ''invalid'')"
  have moved: "fetches (q_events (snd ?run1)) \<noteq> fetches []" by code_simp
  then have moved': "fetches (q_events (snd ?run1)) \<noteq> fetches (q_events ?st0)" by simp
  note valid = pagination_guard[where fuel = "Suc 0" and fetch = "stub [resultsPage [2::nat] 95 100]"
      and opts = guardOptions and ps = 10 and result = ?E1 and st = ?st0
      and out = "fst ?run1" and st' = "snd ?run1", THEN conjunct1]
  from valid moved' have a:
    "\<exists>s t st1. appendPage guardOptions ?E1 ?st0 = Continue st1 \<and>
      env_StartIndex ?E1 = JNum s \<and> s \<noteq> 0 \<and> 0 < m_pageSize guardOptions \<and>
      env_TotalResultCount ?E1 = JNum t \<and> s + m_pageSize guardOptions \<le> t \<and>
      (m_limit guardOptions = None \<or> (\<exists>l. m_limit guardOptions = Some l \<and> q_totalFetched st1 < l))"
    by simp
  have first: "stub [Inr ?E2] 0 (firstRequest malformedOptions) = (Inr ?E2, Suc 0)"
    by (simp add: stub_def)
  have bad: "\<not> is_number (env_StartIndex ?E2)" by (simp add: mockResults_def)
  note malformed = pagination_guard[where fuel = 0 and fetch = "stub [Inr ?E2]"
      and options = malformedOptions and w = 0 and result = ?E2 and ?w1.0 = "Suc 0"
      and onPage = alwaysContinue and c = "()",
      THEN conjunct2, THEN conjunct2, THEN conjunct2, THEN conjunct2]
  from malformed first bad have e:
    "(\<exists>r st n. query (Suc 0) (stub [Inr ?E2]) malformedOptions 0 = (Some (Inr r), st) \<and>
        q_events st = [Fetch (firstRequest malformedOptions) (Inr ?E2)] \<and>
        env_Results r = Some (q_results st) \<and> q_results st = take n (pageRecords ?E2)) \<and>
     (\<exists>sr st. queryStream (Suc 0) (stub [Inr ?E2]) malformedOptions alwaysContinue 0 () =
          (Some (Inr sr), st) \<and>
        fetches (s_events st) = [Fetch (firstRequest malformedOptions) (Inr ?E2)] \<and>
        sr_totalProcessed sr = delivered (s_events st))"
    by blast
  from moved a first bad e show ?thesis by blast
qed

subsection \<open>A limit below the available records\<close>

lemma exactPages_fetch:
  assumes "exactPages count fetch"
  obtains result w1 where "fetch w req = (Inr result, w1)" and "wellFormed count req result"
proof -
  from assms[unfolded exactPages_def]
  have "\<forall>req. case fetch w req of (Inl e, w1) \<Rightarrow> False
      | (Inr result, w1) \<Rightarrow> wellFormed count req result" by (rule spec)
  then have "case fetch w req of (Inl e, w1) \<Rightarrow> False
      | (Inr result, w1) \<Rightarrow> wellFormed count req result" by (rule spec)
  then show ?thesis using that by (auto split: prod.splits sum.splits)
qed

lemma fetches_snoc_Fetch: "fetches (evs @ [Fetch req resp]) = fetches evs @ [Fetch req resp]"
  by (simp add: fetches_def)

lemma loadRemainingPages_exact:
  fixes fetch :: "('w, 'a) fetcher"
  assumes exact: "exactPages count fetch"
    and lim: "m_limit opts = Some l" and p: "m_pageSize opts = p" "0 < p"
    and ps: "ps = min p l"
  shows "wellFormed count \<lparr> req_start = s, req_pagesize = ps \<rparr> result \<Longrightarrow> 0 < s \<Longrightarrow>
     q_totalFetched st = int (length (q_results st)) \<Longrightarrow> q_totalFetched st < l \<Longrightarrow>
     s + (l - q_totalFetched st) \<le> count \<Longrightarrow>
     (int k - 1) * p < l - q_totalFetched st \<Longrightarrow> l - q_totalFetched st \<le> int k * p \<Longrightarrow>
     k \<le> fuel \<Longrightarrow>
     \<exists>r st'. loadRemainingPages fuel fetch opts ps result st = (Some (Inr r), st') \<and>
        env_Results r = Some (q_results st') \<and> int (length (q_results st')) = l \<and>
        length (fetches (q_events st')) = length (fetches (q_events st)) + (k - 1)"
proof (induction k arbitrary: fuel result st s)
  case 0
  then show ?case by simp
next
  case (Suc j)
  let ?rn = "l - q_totalFetched st"
  from Suc.prems(8) obtain f where fuel: "fuel = Suc f" and jf: "j \<le> f"
    by (cases fuel) simp_all
  from Suc.prems(1) obtain rs where rs: "env_Results result = Some rs"
    and len: "length rs = nat ps" and si: "env_StartIndex result = JNum s"
    and trc: "env_TotalResultCount result = JNum count"
    by (auto simp: wellFormed_def split: option.splits)
  have rn_pos: "0 < ?rn" using Suc.prems(4) by simp
  have l_pos: "0 < l" using Suc.prems(3,4) by simp
  have ps_pos: "0 < ps" using ps p(2) l_pos by simp
  have ilen: "int (length rs) = ps" using len ps_pos by simp
  have ne: "rs \<noteq> []" using ilen ps_pos by auto
  show ?case
  proof (cases j)
    case 0
    with Suc.prems(7) have le: "?rn \<le> p" by simp
    have ge: "?rn \<le> ps" using le ps Suc.prems(3) by simp
    show ?thesis
    proof (cases "ps > ?rn")
      case True
      then show ?thesis
        using rs ilen ne lim rn_pos Suc.prems(3) 0 fuel
        by (simp add: appendPage_def Let_def finalResult_def)
    next
      case False
      with ge have eq: "ps = ?rn" by simp
      then show ?thesis
        using rs ilen ne lim rn_pos Suc.prems(3) 0 fuel ps_pos
        by (simp add: appendPage_def Let_def finalResult_def withinLimit_def)
    qed
  next
    case (Suc i)
    from Suc.prems(6) have jp: "int j * p < ?rn" by simp
    have "p \<le> int j * p" using Suc p(2) by (simp add: algebra_simps)
    with jp have p_rn: "p < ?rn" by simp
    then have psp: "ps = p" using ps Suc.prems(3) by simp
    let ?st1 = "st\<lparr> q_results := q_results st @ rs,
                      q_totalFetched := q_totalFetched st + int (length rs) \<rparr>"
    have ap: "appendPage opts result st = Continue ?st1"
      using rs ilen ne psp lim rn_pos p_rn p(2) by (simp add: appendPage_def Let_def)
    have valid: "isValidPagination opts result"
      using si trc p Suc.prems(2,5) rn_pos by (simp add: isValidPagination_def)
    have more: "hasMoreData opts result"
      using si trc p Suc.prems(5) p_rn by (simp add: hasMoreData_def)
    have within: "withinLimit opts (q_totalFetched ?st1)"
      using lim ilen psp p_rn by (simp add: withinLimit_def)
    let ?req = "nextPageOptions opts ps result"
    have req: "?req = \<lparr> req_start = s + p, req_pagesize = ps \<rparr>"
      using si p by (simp add: nextPageOptions_def)
    from exact obtain page2 w1 where f: "fetch (q_world ?st1) ?req = (Inr page2, w1)"
      and wf: "wellFormed count ?req page2"
      by (rule exactPages_fetch)
    let ?st2 = "?st1\<lparr> q_world := w1, q_events := q_events ?st1 @ [Fetch ?req (Inr page2)] \<rparr>"
    have step: "loadRemainingPages fuel fetch opts ps result st =
                loadRemainingPages f fetch opts ps page2 ?st2"
      using fuel ap valid more within f by (simp add: Let_def)
    have "\<exists>r st'. loadRemainingPages f fetch opts ps page2 ?st2 = (Some (Inr r), st') \<and>
        env_Results r = Some (q_results st') \<and> int (length (q_results st')) = l \<and>
        length (fetches (q_events st')) = length (fetches (q_events ?st2)) + (j - 1)"
    proof (rule Suc.IH[where s = "s + p"])
      show "wellFormed count \<lparr> req_start = s + p, req_pagesize = ps \<rparr> page2"
        using wf req by simp
      show "0 < s + p" using Suc.prems(2) p(2) by simp
      show "q_totalFetched ?st2 = int (length (q_results ?st2))" using Suc.prems(3) by simp
      show "q_totalFetched ?st2 < l" using ilen psp p_rn by simp
      show "s + p + (l - q_totalFetched ?st2) \<le> count" using ilen psp Suc.prems(5) by simp
      show "(int j - 1) * p < l - q_totalFetched ?st2"
        using jp ilen psp by (simp add: algebra_simps)
      show "l - q_totalFetched ?st2 \<le> int j * p"
        using Suc.prems(7) ilen psp by (simp add: algebra_simps)
      show "j \<le> f" by (rule jf)
    qed
    then show ?thesis unfolding step using Suc by (auto simp: fetches_snoc_Fetch)
  qed
qed


text \<open>
  C3. Let the transport answer every request with a well-formed envelope of exactly the
  requested number of records, the requested page size \<open>p\<close> and the start \<open>s\<close> be
  positive, and the limit \<open>l\<close> be positive with \<open>l\<close> records available from \<open>s\<close> on
  without reaching the end (\<open>s + l \<le> count\<close>; for \<open>s = 1\<close> this is \<open>l < count\<close>). Then
  the query resolves (fuel for \<open>l / p\<close> pages, rounded up, is enough) with exactly \<open>l\<close>
  records, and the number \<open>n\<close> of requests is \<open>l / p\<close> rounded up:
  \<open>(n - 1) * p < l \<le> n * p\<close>. When \<open>l = m * p\<close> there are exactly \<open>m\<close> requests.
\<close>

theorem query_exact_limit:
  fixes fetch :: "('w, 'a) fetcher"
  assumes exact: "exactPages count fetch"
    and lim: "opt_limit options = Some l" "0 < l"
    and p: "m_pageSize (merge_defaults options) = p" "0 < p"
    and s: "m_start (merge_defaults options) = s" "0 < s"
    and room: "s + l \<le> count"
    and fuel: "l \<le> int fuel * p"
  shows "\<exists>r st rs. query fuel fetch options w = (Some (Inr r), st) \<and>
           env_Results r = Some rs \<and> int (length rs) = l \<and>
           (int (length (fetches (q_events st))) - 1) * p < l \<and>
           l \<le> int (length (fetches (q_events st))) * p \<and>
           (\<forall>m. l = int m * p \<longrightarrow> length (fetches (q_events st)) = m)"
proof -
  let ?opts = "merge_defaults options"
  define k where "k = (LEAST k. l \<le> int k * p)"
  have k_up: "l \<le> int k * p" unfolding k_def using fuel by (rule LeastI)
  have k_fuel: "k \<le> fuel" unfolding k_def using fuel by (rule Least_le)
  have k_pos: "0 < k" using k_up lim(2) by (cases k) simp_all
  have "\<not> l \<le> int (k - 1) * p"
    using not_less_Least[of "k - 1" "\<lambda>k. l \<le> int k * p"] k_pos unfolding k_def by simp
  then have k_low: "(int k - 1) * p < l" using k_pos by simp
  have mlim: "m_limit ?opts = Some l" using lim(1) by (simp add: merge_defaults_def)
  have ps: "optimalPageSize ?opts = min p l"
    using mlim lim(2) p(1) by (simp add: optimalPageSize_def)
  let ?req = "\<lparr> req_start = m_start ?opts, req_pagesize = optimalPageSize ?opts \<rparr>"
  from exact obtain result w1 where f: "fetch w ?req = (Inr result, w1)"
    and wf: "wellFormed count ?req result"
    by (rule exactPages_fetch)
  let ?st0 = "\<lparr> q_world = w1, q_results = [], q_totalFetched = 0,
                 q_events = [Fetch ?req (Inr result)] \<rparr>"
  have q: "query fuel fetch options w =
           loadRemainingPages fuel fetch ?opts (optimalPageSize ?opts) result ?st0"
    using f by (simp add: query_def Let_def)
  have "\<exists>r st'. loadRemainingPages fuel fetch ?opts (optimalPageSize ?opts) result ?st0 =
          (Some (Inr r), st') \<and>
        env_Results r = Some (q_results st') \<and> int (length (q_results st')) = l \<and>
        length (fetches (q_events st')) = length (fetches (q_events ?st0)) + (k - 1)"
  proof (rule loadRemainingPages_exact[OF exact mlim p ps, where s = s])
    show "wellFormed count \<lparr> req_start = s, req_pagesize = optimalPageSize ?opts \<rparr> result"
      using wf s(1) by simp
  qed (use s(2) lim(2) room k_low k_up k_fuel in simp_all)
  then obtain r st where run: "query fuel fetch options w = (Some (Inr r), st)"
    and res: "env_Results r = Some (q_results st)" "int (length (q_results st)) = l"
    and n: "length (fetches (q_events st)) = k"
    unfolding q using k_pos by (auto simp: fetches_def)
  have "\<forall>m. l = int m * p \<longrightarrow> k = m"
  proof (intro allI impI)
    fix m assume m: "l = int m * p"
    from k_up m p(2) have "int m \<le> int k" by simp
    moreover from k_low m p(2) have "int k - 1 < int m" by simp
    ultimately show "k = m" by simp
  qed
  with run res n k_low k_up show ?thesis by auto
qed

theorem query_exact_limit_witness:
  "exactPages 10000 (mockServer 10000) \<and> opt_limit boundaryOptions = Some 200 \<and>
   m_pageSize (merge_defaults boundaryOptions) = 100 \<and>
   m_start (merge_defaults boundaryOptions) = 1 \<and>
   (\<exists>r st rs. query 2 (mockServer 10000) boundaryOptions () = (Some (Inr r), st) \<and>
      env_Results r = Some rs \<and> int (length rs) = 200 \<and>
      length (fetches (q_events st)) = 2)"
proof -
  have e: "exactPages 10000 (mockServer 10000)"
    by (simp add: exactPages_def mockServer_def wellFormed_def mockResults_def)
  have l: "opt_limit boundaryOptions = Some 200" by (simp add: boundaryOptions_def)
  have p: "m_pageSize (merge_defaults boundaryOptions) = 100"
    by (simp add: boundaryOptions_def merge_defaults_def)
  have s: "m_start (merge_defaults boundaryOptions) = 1"
    by (simp add: boundaryOptions_def merge_defaults_def)
  from query_exact_limit[OF e l _ p _ s, of 2 "()"]
  obtain r st rs where "query 2 (mockServer 10000) boundaryOptions () = (Some (Inr r), st)"
    "env_Results r = Some rs" "int (length rs) = 200"
    "\<forall>m. (200::int) = int m * 100 \<longrightarrow> length (fetches (q_events st)) = m"
    by auto
  moreover from this(4) have "length (fetches (q_events st)) = 2" by simp
  ultimately show ?thesis using e l p s by blast
qed

end
